theory Spec2Isabelle
  imports Main "HOL-Library.Multiset" "HOL-Library.Code_Target_Nat"
begin

section \<open>The heap hierarchy of jkds: data model\<close>

text \<open>
  The library keeps a heap in a \<^verbatim>\<open>std::vector<T> nodes_\<close> and orders it with
  \<^verbatim>\<open>std::greater<T>\<close> (min heap) or \<^verbatim>\<open>std::less<T>\<close> (max heap). Element types are
  modelled as linear orders. The members \<^verbatim>\<open>nodes_\<close>, \<^verbatim>\<open>key_map_\<close>, \<^verbatim>\<open>index_map_\<close>
  and \<^verbatim>\<open>comp_\<close> lose their trailing underscore (not a legal name here); \<^verbatim>\<open>comp_\<close>
  is called \<open>Compare\<close> after its type alias.
\<close>

datatype heap_type = min_heap | max_heap

text \<open>
  Every way an operation can fail to return:
  \<^item> \<open>out_of_range\<close>: the exception of \<^verbatim>\<open>vector::at\<close> and \<^verbatim>\<open>unordered_map::at\<close>;
  \<^item> \<open>terminated\<close>: that exception leaving a \<^verbatim>\<open>noexcept\<close> function;
  \<^item> \<open>assertion_failed\<close>: a failing \<^verbatim>\<open>assert\<close>;
  \<^item> \<open>undefined_behaviour\<close>: an unchecked \<^verbatim>\<open>operator[]\<close> outside the vector, or
    \<^verbatim>\<open>back()\<close> on an empty vector;
  \<^item> \<open>arity_rejected\<close>: the \<^verbatim>\<open>enable_if<(K > 2 && K <= 64)>\<close> guard of \<^verbatim>\<open>KHeap\<close>
    refusing the instantiation.
\<close>

datatype error = out_of_range | terminated | assertion_failed | undefined_behaviour
  | arity_rejected

text \<open>The two concrete arity strategies; \<open>KHeap K\<close> carries the template parameter.\<close>

datatype heap_class = BinaryHeap | KHeap nat

record 'a Heap =
  nodes :: "'a list"

record ('a, 'k) PriorityQueue = "'a Heap" +
  key_map :: "'a \<rightharpoonup> 'k"
  index_map :: "'a \<rightharpoonup> nat"

text \<open>
  \<^verbatim>\<open>swap_nodes\<close> is virtual: the heap algorithms receive the implementation of the
  object's dynamic class as an argument.
\<close>

type_synonym ('a, 'm) seam =
  "nat \<Rightarrow> nat \<Rightarrow> ('a, 'm) Heap_scheme \<Rightarrow> error + ('a, 'm) Heap_scheme"

definition Compare :: "heap_type \<Rightarrow> 'a::linorder \<Rightarrow> 'a \<Rightarrow> bool" where
  "Compare HeapT a b = (case HeapT of min_heap \<Rightarrow> a > b | max_heap \<Rightarrow> a < b)"

text \<open>
  \<^verbatim>\<open>std::size_t\<close> values are natural numbers below \<open>2 ^ 64\<close>. Subtraction is the one
  operation the code lets wrap (\<^verbatim>\<open>size() - 2\<close> on a heap with fewer than two nodes),
  so it is written out; sums and products of indices stay far below \<open>2 ^ 64\<close> for
  any vector that fits in memory.
\<close>

definition size_sub :: "nat \<Rightarrow> nat \<Rightarrow> nat" where
  "size_sub a b = (if b \<le> a then a - b else a + 2 ^ 64 - b)"

definition left :: "nat \<Rightarrow> nat" where
  "left i = 2 * i + 1"

definition right :: "nat \<Rightarrow> nat" where
  "right i = 2 * i + 2"

definition child :: "nat \<Rightarrow> nat \<Rightarrow> nat \<Rightarrow> nat" where
  "child K i j = K * i + j + 1"

definition BinaryHeap_is_leaf :: "nat \<Rightarrow> nat \<Rightarrow> bool" where
  "BinaryHeap_is_leaf sz i = (i \<ge> sz div 2 + 1)"

definition KHeap_is_leaf :: "nat \<Rightarrow> nat \<Rightarrow> nat \<Rightarrow> bool" where
  "KHeap_is_leaf K sz i = (i > size_sub sz 2 div K)"

fun parent :: "heap_class \<Rightarrow> nat \<Rightarrow> nat" where
  "parent BinaryHeap i = size_sub i 1 div 2"
| "parent (KHeap K) i = size_sub i 1 div K"

text \<open>
  \<open>comp_at t xs a b\<close> is \<^verbatim>\<open>comp_(nodes_[a], nodes_[b])\<close> with the unchecked
  subscript, \<open>comp_at_checked\<close> the same through \<^verbatim>\<open>nodes_.at\<close> inside a
  \<^verbatim>\<open>noexcept\<close> function.
\<close>

definition comp_at :: "heap_type \<Rightarrow> ('a::linorder) list \<Rightarrow> nat \<Rightarrow> nat \<Rightarrow> error + bool" where
  "comp_at t xs a b =
     (if a < length xs \<and> b < length xs then Inr (Compare t (xs ! a) (xs ! b))
      else Inl undefined_behaviour)"

definition comp_at_checked :: "heap_type \<Rightarrow> ('a::linorder) list \<Rightarrow> nat \<Rightarrow> nat \<Rightarrow> error + bool" where
  "comp_at_checked t xs a b =
     (if a < length xs \<and> b < length xs then Inr (Compare t (xs ! a) (xs ! b))
      else Inl terminated)"

section \<open>Heap (heap.h)\<close>

definition Heap_swap_nodes :: "nat \<Rightarrow> nat \<Rightarrow> ('a, 'm) Heap_scheme \<Rightarrow> error + ('a, 'm) Heap_scheme" where
  "Heap_swap_nodes i j h =
     (let xs = nodes h in
      if i < length xs \<and> j < length xs
      then Inr (h\<lparr>nodes := xs[i := xs ! j, j := xs ! i]\<rparr>)
      else Inl terminated)"

function heapify_up ::
  "('a::linorder, 'm) seam \<Rightarrow> heap_type \<Rightarrow> heap_class \<Rightarrow> nat \<Rightarrow> ('a, 'm) Heap_scheme
   \<Rightarrow> error + ('a, 'm) Heap_scheme" where
  "heapify_up sw t cls i h =
     (if i > 0 then
        (case comp_at_checked t (nodes h) (parent cls i) i of
           Inl e \<Rightarrow> Inl e
         | Inr b \<Rightarrow>
             if b then
               (let p = parent cls i in
                case sw i p h of
                  Inl e \<Rightarrow> Inl e
                | Inr h' \<Rightarrow> heapify_up sw t cls p h')
             else Inr h)
      else Inr h)"
  by pat_completeness auto
termination
proof (relation "measure (\<lambda>(sw, t, cls, i, h). i)")
  show "wf (measure (\<lambda>(sw, t, cls, i, h). i))" by simp
next
  fix sw :: "('a, 'm) seam" and t cls i and h :: "('a, 'm) Heap_scheme" and b p h'
  assume "0 < i" and "p = parent cls i"
  then have "p < i"
    by (cases cls) (auto simp: size_sub_def intro: le_less_trans [OF div_le_dividend])
  then show "((sw, t, cls, p, h'), (sw, t, cls, i, h)) \<in> measure (\<lambda>(sw, t, cls, i, h). i)"
    by simp
qed

declare heapify_up.simps [simp del]

definition Heap_size :: "('a, 'm) Heap_scheme \<Rightarrow> nat" where
  "Heap_size h = length (nodes h)"

definition Heap_empty :: "('a, 'm) Heap_scheme \<Rightarrow> bool" where
  "Heap_empty h = (Heap_size h = 0)"

section \<open>BinaryHeap (binary\_heap.h)\<close>

text \<open>
  One pass of the loop body of \<^verbatim>\<open>BinaryHeap::heapify_down\<close> up to the choice of
  \<^verbatim>\<open>comp_est\<close>; \<open>len\<close> is the size cached on entry.
\<close>

definition BinaryHeap_comp_est ::
  "heap_type \<Rightarrow> nat \<Rightarrow> ('a::linorder) list \<Rightarrow> nat \<Rightarrow> error + nat" where
  "BinaryHeap_comp_est t len xs i =
     (let l = left i; r = right i in
      case (if l < len then comp_at t xs i l else Inr False) of
        Inl e \<Rightarrow> Inl e
      | Inr b1 \<Rightarrow>
          (let comp_est = (if b1 then l else i) in
           case (if r < len then comp_at t xs comp_est r else Inr False) of
             Inl e \<Rightarrow> Inl e
           | Inr b2 \<Rightarrow> Inr (if b2 then r else comp_est)))"

lemma BinaryHeap_comp_est_range:
  assumes "BinaryHeap_comp_est t len xs i = Inr c"
  shows "c = i \<or> (i < c \<and> c < len)"
  using assms
  by (auto simp: BinaryHeap_comp_est_def Let_def left_def right_def
      split: if_splits sum.splits)

function BinaryHeap_heapify_down_loop ::
  "('a::linorder, 'm) seam \<Rightarrow> heap_type \<Rightarrow> nat \<Rightarrow> nat \<Rightarrow> ('a, 'm) Heap_scheme
   \<Rightarrow> error + ('a, 'm) Heap_scheme" where
  "BinaryHeap_heapify_down_loop sw t len i h =
     (if BinaryHeap_is_leaf (Heap_size h) i then Inr h
      else
        (case BinaryHeap_comp_est t len (nodes h) i of
           Inl e \<Rightarrow> Inl e
         | Inr comp_est \<Rightarrow>
             if i = comp_est then Inr h
             else
               (case sw i comp_est h of
                  Inl e \<Rightarrow> Inl e
                | Inr h' \<Rightarrow> BinaryHeap_heapify_down_loop sw t len comp_est h')))"
  by pat_completeness auto
termination
proof (relation "measure (\<lambda>(sw, t, len, i, h). len - i)")
  show "wf (measure (\<lambda>(sw, t, len, i, h). len - i))" by simp
next
  fix sw :: "('a, 'm) seam" and t len i and h :: "('a, 'm) Heap_scheme" and c h'
  assume "BinaryHeap_comp_est t len (nodes h) i = Inr c" and "i \<noteq> c"
  then have "i < c \<and> c < len"
    using BinaryHeap_comp_est_range by blast
  then show "((sw, t, len, c, h'), (sw, t, len, i, h))
      \<in> measure (\<lambda>(sw, t, len, i, h). len - i)"
    by (simp add: diff_less_mono2)
qed

declare BinaryHeap_heapify_down_loop.simps [simp del]

definition BinaryHeap_heapify_down ::
  "('a::linorder, 'm) seam \<Rightarrow> heap_type \<Rightarrow> nat \<Rightarrow> ('a, 'm) Heap_scheme
   \<Rightarrow> error + ('a, 'm) Heap_scheme" where
  "BinaryHeap_heapify_down sw t index_to_fix h =
     BinaryHeap_heapify_down_loop sw t (Heap_size h) index_to_fix h"

text \<open>
  \<^verbatim>\<open>for (i = start; i > 0; --i) heapify_down(i - 1)\<close>, shared by both
  \<^verbatim>\<open>build_heap\<close> overrides; the first argument is the override of
  \<^verbatim>\<open>heapify_down\<close> being called.
\<close>

fun build_heap_loop ::
  "(nat \<Rightarrow> 'h \<Rightarrow> error + 'h) \<Rightarrow> nat \<Rightarrow> 'h \<Rightarrow> error + 'h" where
  "build_heap_loop down 0 h = Inr h"
| "build_heap_loop down (Suc n) h =
     (case down n h of Inl e \<Rightarrow> Inl e | Inr h' \<Rightarrow> build_heap_loop down n h')"

definition BinaryHeap_build_heap ::
  "('a::linorder, 'm) seam \<Rightarrow> heap_type \<Rightarrow> ('a, 'm) Heap_scheme
   \<Rightarrow> error + ('a, 'm) Heap_scheme" where
  "BinaryHeap_build_heap sw t h =
     build_heap_loop (BinaryHeap_heapify_down sw t) (Heap_size h div 2 + 1) h"

section \<open>KHeap (k\_heap.h)\<close>

text \<open>
  The \<^verbatim>\<open>for (j = 0; j < K; ++j)\<close> scan of \<^verbatim>\<open>KHeap::heapify_down\<close>:
  \<open>KHeap_scan_step\<close> is its body, the fold runs it for \<open>j = 0, ..., K - 1\<close>.
\<close>

definition KHeap_scan_step ::
  "heap_type \<Rightarrow> nat \<Rightarrow> nat \<Rightarrow> ('a::linorder) list \<Rightarrow> nat \<Rightarrow> nat \<Rightarrow> error + nat
   \<Rightarrow> error + nat" where
  "KHeap_scan_step t K len xs i j acc =
     (case acc of
        Inl e \<Rightarrow> Inl e
      | Inr comp_est \<Rightarrow>
          (let son = child K i j in
           case (if son < len then comp_at t xs comp_est son else Inr False) of
             Inl e \<Rightarrow> Inl e
           | Inr b \<Rightarrow> Inr (if b then son else comp_est)))"

definition KHeap_scan ::
  "heap_type \<Rightarrow> nat \<Rightarrow> nat \<Rightarrow> ('a::linorder) list \<Rightarrow> nat \<Rightarrow> nat \<Rightarrow> error + nat" where
  "KHeap_scan t K len xs i comp_est =
     fold (KHeap_scan_step t K len xs i) [0..<K] (Inr comp_est)"

lemma child_gt: "0 < K \<Longrightarrow> i < child K i j"
  by (cases K) (simp_all add: child_def)

lemma KHeap_scan_step_range:
  assumes "KHeap_scan_step t K len xs i j acc = Inr c" and "0 < K"
  shows "\<exists>c0. acc = Inr c0 \<and> (c = c0 \<or> (i < c \<and> c < len))"
  using assms child_gt [of K i j]
  by (auto simp: KHeap_scan_step_def Let_def split: if_splits sum.splits)

lemma KHeap_scan_fold_range:
  assumes "fold (KHeap_scan_step t K len xs i) js acc = Inr c" and "0 < K"
  shows "\<exists>c0. acc = Inr c0 \<and> (c = c0 \<or> (i < c \<and> c < len))"
  using assms
proof (induction js arbitrary: acc)
  case Nil
  then show ?case by simp
next
  case (Cons j js)
  from Cons.IH [of "KHeap_scan_step t K len xs i j acc"] Cons.prems
  obtain c1 where c1: "KHeap_scan_step t K len xs i j acc = Inr c1"
    and d: "c = c1 \<or> (i < c \<and> c < len)"
    by auto
  from KHeap_scan_step_range [OF c1 \<open>0 < K\<close>] d show ?case by auto
qed

lemma KHeap_scan_range:
  assumes "KHeap_scan t K len xs i c0 = Inr c"
  shows "c = c0 \<or> (i < c \<and> c < len)"
proof (cases "K = 0")
  case True
  with assms show ?thesis by (simp add: KHeap_scan_def)
next
  case False
  with KHeap_scan_fold_range [of t K len xs i "[0..<K]" "Inr c0" c] assms
  show ?thesis by (simp add: KHeap_scan_def)
qed

text \<open>
  \<^verbatim>\<open>comp_est\<close> is declared before the \<^verbatim>\<open>while\<close> loop of
  \<^verbatim>\<open>KHeap::heapify_down\<close> and never reset inside it, so it is part of the loop state.
\<close>

function KHeap_heapify_down_loop ::
  "('a::linorder, 'm) seam \<Rightarrow> heap_type \<Rightarrow> nat \<Rightarrow> nat \<Rightarrow> nat \<Rightarrow> nat
   \<Rightarrow> ('a, 'm) Heap_scheme \<Rightarrow> error + ('a, 'm) Heap_scheme" where
  "KHeap_heapify_down_loop sw t K len i comp_est h =
     (if KHeap_is_leaf K (Heap_size h) i then Inr h
      else
        (case KHeap_scan t K len (nodes h) i comp_est of
           Inl e \<Rightarrow> Inl e
         | Inr comp_est' \<Rightarrow>
             if i = comp_est' then Inr h
             else
               (case sw i comp_est' h of
                  Inl e \<Rightarrow> Inl e
                | Inr h' \<Rightarrow> KHeap_heapify_down_loop sw t K len comp_est' comp_est' h')))"
  by pat_completeness auto
termination
proof (relation "measures [\<lambda>(sw, t, K, len, i, c, h). if c = i then 0 else 1,
                           \<lambda>(sw, t, K, len, i, c, h). len - i]")
  show "wf (measures [\<lambda>(sw, t, K, len, i, c, h). if c = i then 0 else (1::nat),
                      \<lambda>(sw, t, K, len, i, c, h). len - i])"
    by simp
next
  fix sw :: "('a, 'm) seam" and t K len i c and h :: "('a, 'm) Heap_scheme" and c' h'
  assume "KHeap_scan t K len (nodes h) i c = Inr c'" and "i \<noteq> c'"
  then have "c' = c \<or> (i < c' \<and> c' < len)" "i \<noteq> c'"
    using KHeap_scan_range by blast+
  then show "((sw, t, K, len, c', c', h'), (sw, t, K, len, i, c, h))
      \<in> measures [\<lambda>(sw, t, K, len, i, c, h). if c = i then 0 else 1,
                   \<lambda>(sw, t, K, len, i, c, h). len - i]"
    by (auto simp: diff_less_mono2)
qed

declare KHeap_heapify_down_loop.simps [simp del]

definition KHeap_heapify_down ::
  "('a::linorder, 'm) seam \<Rightarrow> heap_type \<Rightarrow> nat \<Rightarrow> nat \<Rightarrow> ('a, 'm) Heap_scheme
   \<Rightarrow> error + ('a, 'm) Heap_scheme" where
  "KHeap_heapify_down sw t K index_to_fix h =
     KHeap_heapify_down_loop sw t K (Heap_size h) index_to_fix index_to_fix h"

definition KHeap_build_heap ::
  "('a::linorder, 'm) seam \<Rightarrow> heap_type \<Rightarrow> nat \<Rightarrow> ('a, 'm) Heap_scheme
   \<Rightarrow> error + ('a, 'm) Heap_scheme" where
  "KHeap_build_heap sw t K h =
     build_heap_loop (KHeap_heapify_down sw t K) (Heap_size h div K + 1) h"

section \<open>The public operations of Heap\<close>

text \<open>Dispatch of the pure virtual \<^verbatim>\<open>heapify_down\<close> and \<^verbatim>\<open>build_heap\<close>.\<close>

fun heapify_down ::
  "('a::linorder, 'm) seam \<Rightarrow> heap_type \<Rightarrow> heap_class \<Rightarrow> nat \<Rightarrow> ('a, 'm) Heap_scheme
   \<Rightarrow> error + ('a, 'm) Heap_scheme" where
  "heapify_down sw t BinaryHeap i h = BinaryHeap_heapify_down sw t i h"
| "heapify_down sw t (KHeap K) i h = KHeap_heapify_down sw t K i h"

fun build_heap ::
  "('a::linorder, 'm) seam \<Rightarrow> heap_type \<Rightarrow> heap_class \<Rightarrow> ('a, 'm) Heap_scheme
   \<Rightarrow> error + ('a, 'm) Heap_scheme" where
  "build_heap sw t BinaryHeap h = BinaryHeap_build_heap sw t h"
| "build_heap sw t (KHeap K) h = KHeap_build_heap sw t K h"

definition heapify ::
  "('a::linorder, 'm) seam \<Rightarrow> heap_type \<Rightarrow> heap_class \<Rightarrow> bool \<Rightarrow> ('a, 'm) Heap_scheme
   \<Rightarrow> error + ('a, 'm) Heap_scheme" where
  "heapify sw t cls IsHeap h = (if \<not> IsHeap then build_heap sw t cls h else Inr h)"

text \<open>
  \<^verbatim>\<open>top\<close> is \<^verbatim>\<open>nodes_.at(0)\<close>, which throws on an empty vector. \<^verbatim>\<open>pop\<close> starts
  with \<^verbatim>\<open>nodes_.at(0) = nodes_.back()\<close>. The right operand of an assignment is
  evaluated first (C++17), so on an empty vector \<^verbatim>\<open>back()\<close> is called before the
  range check of \<^verbatim>\<open>at(0)\<close> is reached, and \<^verbatim>\<open>back()\<close> on an empty vector has no
  defined behaviour: in practice an invalid read, followed by the exception of
  \<^verbatim>\<open>at(0)\<close> if the read did not stop the program.
\<close>

definition Heap_top :: "('a, 'm) Heap_scheme \<Rightarrow> error + 'a" where
  "Heap_top h = (case nodes h of [] \<Rightarrow> Inl out_of_range | x # _ \<Rightarrow> Inr x)"

definition Heap_pop ::
  "('a::linorder, 'm) seam \<Rightarrow> heap_type \<Rightarrow> heap_class \<Rightarrow> ('a, 'm) Heap_scheme
   \<Rightarrow> error + ('a, 'm) Heap_scheme" where
  "Heap_pop sw t cls h =
     (if nodes h = [] then Inl undefined_behaviour
      else
        (let xs = (nodes h)[0 := last (nodes h)] in
         heapify_down sw t cls 0 (h\<lparr>nodes := butlast xs\<rparr>)))"

definition Heap_push ::
  "('a::linorder, 'm) seam \<Rightarrow> heap_type \<Rightarrow> heap_class \<Rightarrow> 'a \<Rightarrow> ('a, 'm) Heap_scheme
   \<Rightarrow> error + ('a, 'm) Heap_scheme" where
  "Heap_push sw t cls x h =
     (let index_to_fix = Heap_size h in
      heapify_up sw t cls index_to_fix (h\<lparr>nodes := nodes h @ [x]\<rparr>))"

text \<open>
  The factories. \<open>make_heap\<close> is \<^verbatim>\<open>make_min_heap\<close> and \<^verbatim>\<open>make_max_heap\<close>,
  \<open>make_k_heap\<close> is \<^verbatim>\<open>make_min_k_heap\<close> and \<^verbatim>\<open>make_max_k_heap\<close>, with the heap
  type as an argument. A \<^verbatim>\<open>KHeap\<close> exists only for \<open>2 < K \<le> 64\<close>.
\<close>

definition make_heap :: "heap_type \<Rightarrow> bool \<Rightarrow> ('a::linorder) list \<Rightarrow> error + 'a Heap" where
  "make_heap t IsHeap inputs = heapify Heap_swap_nodes t BinaryHeap IsHeap \<lparr>nodes = inputs\<rparr>"

definition make_k_heap ::
  "heap_type \<Rightarrow> nat \<Rightarrow> bool \<Rightarrow> ('a::linorder) list \<Rightarrow> error + 'a Heap" where
  "make_k_heap t K IsHeap inputs =
     (if 2 < K \<and> K \<le> 64 then heapify Heap_swap_nodes t (KHeap K) IsHeap \<lparr>nodes = inputs\<rparr>
      else Inl arity_rejected)"

definition make_min_heap :: "bool \<Rightarrow> ('a::linorder) list \<Rightarrow> error + 'a Heap" where
  "make_min_heap = make_heap min_heap"

definition make_max_heap :: "bool \<Rightarrow> ('a::linorder) list \<Rightarrow> error + 'a Heap" where
  "make_max_heap = make_heap max_heap"

definition make_min_k_heap :: "nat \<Rightarrow> bool \<Rightarrow> ('a::linorder) list \<Rightarrow> error + 'a Heap" where
  "make_min_k_heap = make_k_heap min_heap"

definition make_max_k_heap :: "nat \<Rightarrow> bool \<Rightarrow> ('a::linorder) list \<Rightarrow> error + 'a Heap" where
  "make_max_k_heap = make_k_heap max_heap"

section \<open>PriorityQueue (priority\_queue.h)\<close>

text \<open>
  \<^verbatim>\<open>index_map_[x]\<close> on a \<^verbatim>\<open>std::unordered_map\<close>: a missing key is inserted with the
  value-initialised index \<open>0\<close>. \<open>subscript m x\<close> is the value read,
  \<open>m(x \<mapsto> subscript m x)\<close> the map afterwards.
\<close>

definition subscript :: "('a \<rightharpoonup> nat) \<Rightarrow> 'a \<Rightarrow> nat" where
  "subscript m x = (case m x of None \<Rightarrow> 0 | Some i \<Rightarrow> i)"

text \<open>
  The override of \<^verbatim>\<open>swap_nodes\<close>: it reads both nodes with the unchecked subscript,
  swaps the two entries of the index map (one entry swapped with itself when both
  nodes are equal), then calls the base class.
\<close>

definition PQ_swap_nodes ::
  "nat \<Rightarrow> nat \<Rightarrow> ('a, 'k, 'm) PriorityQueue_scheme
   \<Rightarrow> error + ('a, 'k, 'm) PriorityQueue_scheme" where
  "PQ_swap_nodes i j q =
     (if i < length (nodes q) \<and> j < length (nodes q) then
        (let node_i = nodes q ! i; node_j = nodes q ! j; m = index_map q in
         Heap_swap_nodes i j
           (q\<lparr>index_map := m(node_i \<mapsto> subscript m node_j, node_j \<mapsto> subscript m node_i)\<rparr>))
      else Inl undefined_behaviour)"

definition build_key_map :: "'k list \<Rightarrow> 'a list \<Rightarrow> error + ('a \<rightharpoonup> 'k)" where
  "build_key_map keys ns =
     (if length keys = length ns
      then Inr (fold (\<lambda>(key, node) m. m(node \<mapsto> key)) (zip keys ns) Map.empty)
      else Inl assertion_failed)"

definition build_index_map :: "'a list \<Rightarrow> ('a \<rightharpoonup> nat)" where
  "build_index_map ns =
     fold (\<lambda>(node, index) m. m(node \<mapsto> index)) (zip ns [0..<length ns]) Map.empty"

text \<open>
  The constructor taking both vectors by rvalue, which the four factories call.
  \<open>make_priority_queue\<close> is \<^verbatim>\<open>make_min_priority_queue\<close> and
  \<^verbatim>\<open>make_max_priority_queue\<close>, \<open>make_k_priority_queue\<close> is
  \<^verbatim>\<open>make_min_k_priority_queue\<close> and \<^verbatim>\<open>make_max_k_priority_queue\<close>.
\<close>

definition PriorityQueue_init ::
  "heap_type \<Rightarrow> heap_class \<Rightarrow> bool \<Rightarrow> 'k list \<Rightarrow> ('a::linorder) list
   \<Rightarrow> error + ('a, 'k) PriorityQueue" where
  "PriorityQueue_init t cls IsHeap keys inputs =
     (case build_key_map keys inputs of
        Inl e \<Rightarrow> Inl e
      | Inr km \<Rightarrow>
          heapify PQ_swap_nodes t cls IsHeap
            \<lparr>nodes = inputs, key_map = km, index_map = build_index_map inputs\<rparr>)"

definition make_priority_queue ::
  "heap_type \<Rightarrow> bool \<Rightarrow> 'k list \<Rightarrow> ('a::linorder) list \<Rightarrow> error + ('a, 'k) PriorityQueue" where
  "make_priority_queue t IsHeap keys vals = PriorityQueue_init t BinaryHeap IsHeap keys vals"

definition make_k_priority_queue ::
  "heap_type \<Rightarrow> nat \<Rightarrow> bool \<Rightarrow> 'k list \<Rightarrow> ('a::linorder) list
   \<Rightarrow> error + ('a, 'k) PriorityQueue" where
  "make_k_priority_queue t K IsHeap keys vals =
     (if 2 < K \<and> K \<le> 64 then PriorityQueue_init t (KHeap K) IsHeap keys vals
      else Inl arity_rejected)"

definition PQ_push ::
  "heap_type \<Rightarrow> heap_class \<Rightarrow> 'k \<Rightarrow> 'a::linorder \<Rightarrow> ('a, 'k, 'm) PriorityQueue_scheme
   \<Rightarrow> error + ('a, 'k, 'm) PriorityQueue_scheme" where
  "PQ_push t cls key element q =
     (let index_to_fix = Heap_size q in
      Heap_push PQ_swap_nodes t cls element
        (q\<lparr>index_map := (index_map q)(element \<mapsto> index_to_fix),
           key_map := (key_map q)(element \<mapsto> key)\<rparr>))"

definition PQ_pop ::
  "heap_type \<Rightarrow> heap_class \<Rightarrow> ('a::linorder, 'k, 'm) PriorityQueue_scheme
   \<Rightarrow> error + ('a, 'k, 'm) PriorityQueue_scheme" where
  "PQ_pop t cls q =
     (if \<not> Heap_size q > 0 then Inl assertion_failed
      else
        (let node = nodes q ! 0;
             q1 = q\<lparr>index_map := (index_map q)(node := None),
                    key_map := (key_map q)(node := None)\<rparr>;
             q2 = q1\<lparr>nodes := butlast ((nodes q1)[0 := last (nodes q1)])\<rparr>
         in
           if Heap_size q2 > 0 then
             (let front = hd (nodes q2) in
              heapify_down PQ_swap_nodes t cls 0
                (q2\<lparr>index_map := (index_map q2)(front \<mapsto> 0)\<rparr>))
           else Inr q2))"

definition PQ_update_key ::
  "heap_type \<Rightarrow> heap_class \<Rightarrow> 'k \<Rightarrow> 'a::linorder \<Rightarrow> ('a, 'k, 'm) PriorityQueue_scheme
   \<Rightarrow> error + ('a, 'k, 'm) PriorityQueue_scheme" where
  "PQ_update_key t cls key element q =
     (let index_to_fix = subscript (index_map q) element;
          q1 = q\<lparr>index_map := (index_map q)(element \<mapsto> index_to_fix),
                 key_map := (key_map q)(element \<mapsto> key)\<rparr>
      in
        case t of
          min_heap \<Rightarrow> heapify_up PQ_swap_nodes t cls index_to_fix q1
        | max_heap \<Rightarrow> heapify_down PQ_swap_nodes t cls index_to_fix q1)"

definition PQ_key_at :: "'a \<Rightarrow> ('a, 'k, 'm) PriorityQueue_scheme \<Rightarrow> error + 'k" where
  "PQ_key_at element q =
     (case key_map q element of None \<Rightarrow> Inl out_of_range | Some k \<Rightarrow> Inr k)"


definition PQ_top_key_value :: "('a, 'k, 'm) PriorityQueue_scheme \<Rightarrow> error + ('k \<times> 'a)" where
  "PQ_top_key_value q =
     (case Heap_top q of
        Inl e \<Rightarrow> Inl e
      | Inr top_value \<Rightarrow>
          (case PQ_key_at top_value q of
             Inl e \<Rightarrow> Inl e
           | Inr top_key \<Rightarrow> Inr (top_key, top_value)))"

section \<open>Auxiliary facts: the comparator\<close>

lemma Compare_irrefl [simp]: "\<not> Compare t a a"
  by (cases t) (simp_all add: Compare_def)

lemma Compare_asym: "Compare t a b \<Longrightarrow> \<not> Compare t b a"
  by (cases t) (simp_all add: Compare_def)

lemma not_Compare_trans: "\<not> Compare t a b \<Longrightarrow> \<not> Compare t b c \<Longrightarrow> \<not> Compare t a c"
  by (cases t) (simp_all add: Compare_def)

lemma Compare_not_trans: "Compare t a b \<Longrightarrow> \<not> Compare t a c \<Longrightarrow> \<not> Compare t b c"
  by (cases t) (simp_all add: Compare_def)

section \<open>Well-behaved implementations of the swap\<close>

text \<open>
  \<open>seam_ok sw P\<close>: on every object satisfying \<open>P\<close>, the implementation \<open>sw\<close> of
  \<^verbatim>\<open>swap_nodes\<close> returns for indices inside the vector, exchanges the two slots and
  keeps \<open>P\<close>. The base class satisfies it with the trivial \<open>P\<close>.
\<close>

definition seam_ok ::
  "('a, 'm) seam \<Rightarrow> (('a, 'm) Heap_scheme \<Rightarrow> bool) \<Rightarrow> bool" where
  "seam_ok sw P \<longleftrightarrow>
     (\<forall>i j h. P h \<and> i < length (nodes h) \<and> j < length (nodes h) \<longrightarrow>
        (\<exists>h'. sw i j h = Inr h' \<and> P h' \<and>
              nodes h' = (nodes h)[i := nodes h ! j, j := nodes h ! i]))"

lemma seam_okD:
  assumes "seam_ok sw P" "P h" "i < length (nodes h)" "j < length (nodes h)"
  obtains h' where "sw i j h = Inr h'" "P h'"
    "nodes h' = (nodes h)[i := nodes h ! j, j := nodes h ! i]"
  using assms unfolding seam_ok_def by blast

lemma Heap_swap_nodes_ok: "seam_ok Heap_swap_nodes (\<lambda>h. True)"
  by (simp add: seam_ok_def Heap_swap_nodes_def Let_def)

lemma mset_swap_list:
  "i < length xs \<Longrightarrow> j < length xs \<Longrightarrow> mset (xs[i := xs ! j, j := xs ! i]) = mset xs"
  by (simp add: mset_swap)

section \<open>The scan of the children never fails\<close>

lemma KHeap_scan_step_total:
  assumes "len \<le> length xs" "0 < K" "c = i \<or> c < len"
  shows "\<exists>c'. KHeap_scan_step t K len xs i j (Inr c) = Inr c' \<and> (c' = i \<or> c' < len)"
  using assms child_gt [of K i j]
  by (auto simp: KHeap_scan_step_def Let_def comp_at_def)

lemma KHeap_scan_fold_total:
  assumes "len \<le> length xs" "0 < K" "c = i \<or> c < len"
  shows "\<exists>c'. fold (KHeap_scan_step t K len xs i) js (Inr c) = Inr c'"
  using assms(3)
proof (induction js arbitrary: c)
  case Nil
  then show ?case by simp
next
  case (Cons j js)
  from KHeap_scan_step_total [OF assms(1,2) Cons.prems, of t j]
  obtain c' where "KHeap_scan_step t K len xs i j (Inr c) = Inr c'" "c' = i \<or> c' < len"
    by blast
  with Cons.IH [of c'] show ?case by simp
qed

lemma KHeap_scan_total:
  assumes "len \<le> length xs"
  shows "\<exists>c. KHeap_scan t K len xs i i = Inr c"
proof (cases "K = 0")
  case True
  then show ?thesis by (simp add: KHeap_scan_def)
next
  case False
  then show ?thesis
    using KHeap_scan_fold_total [OF assms, of K i i t "[0..<K]"]
    by (simp add: KHeap_scan_def)
qed

section \<open>The loops return\<close>

lemma KHeap_heapify_down_loop_ok:
  assumes "seam_ok sw P" "P h" "len = length (nodes h)" "c = i"
  shows "\<exists>h'. KHeap_heapify_down_loop sw t K len i c h = Inr h' \<and> P h' \<and>
           length (nodes h') = length (nodes h) \<and> mset (nodes h') = mset (nodes h)"
  using assms
proof (induction sw t K len i c h rule: KHeap_heapify_down_loop.induct)
  case (1 sw t K len i c h)
  show ?case
  proof (cases "KHeap_is_leaf K (Heap_size h) i")
    case True
    with "1.prems" show ?thesis
      by (subst KHeap_heapify_down_loop.simps) simp
  next
    case leaf: False
    from KHeap_scan_total [of len "nodes h" t K i] "1.prems"
    obtain c' where c': "KHeap_scan t K len (nodes h) i c = Inr c'"
      by auto
    show ?thesis
    proof (cases "i = c'")
      case True
      with leaf c' "1.prems" show ?thesis
        by (subst KHeap_heapify_down_loop.simps) simp
    next
      case ne: False
      from KHeap_scan_range [OF c'] ne "1.prems" have rng: "i < c'" "c' < length (nodes h)"
        by auto
      then have "i < length (nodes h)" by simp
      from seam_okD [OF "1.prems"(1,2) this rng(2)]
      obtain h1 where h1: "sw i c' h = Inr h1" "P h1"
        "nodes h1 = (nodes h)[i := nodes h ! c', c' := nodes h ! i]"
        by blast
      have len1: "length (nodes h1) = length (nodes h)" and ms1: "mset (nodes h1) = mset (nodes h)"
        using h1(3) rng \<open>i < length (nodes h)\<close> by (simp_all add: mset_swap)
      from "1.IH" [OF leaf c' ne h1(1) "1.prems"(1) h1(2)] len1 "1.prems"(3)
      obtain h' where "KHeap_heapify_down_loop sw t K len c' c' h1 = Inr h'" "P h'"
        "length (nodes h') = length (nodes h1)" "mset (nodes h') = mset (nodes h1)"
        by auto
      with leaf c' ne h1(1) len1 ms1 show ?thesis
        by (subst KHeap_heapify_down_loop.simps) simp
    qed
  qed
qed

section \<open>The binary strategy is the k-ary one at arity two\<close>

lemma BinaryHeap_comp_est_eq_scan:
  "BinaryHeap_comp_est t len xs i = KHeap_scan t 2 len xs i i"
proof -
  have "[0..<2] = [0, Suc 0]" by (simp add: upt_rec)
  then show ?thesis
    by (simp add: BinaryHeap_comp_est_def KHeap_scan_def KHeap_scan_step_def Let_def
        left_def right_def child_def split: sum.splits)
qed

lemma KHeap_is_leaf_child:
  assumes "KHeap_is_leaf K sz i" "0 < K"
  shows "sz \<le> child K i j"
proof (cases "2 \<le> sz")
  case True
  with assms have "(sz - 2) div K < i" by (simp add: KHeap_is_leaf_def size_sub_def)
  then have "sz - 2 < K * i"
    using assms(2) by (simp add: div_less_iff_less_mult mult.commute)
  with True show ?thesis by (simp add: child_def)
next
  case False
  then show ?thesis by (simp add: child_def)
qed

lemma not_KHeap_is_leaf_2:
  assumes "\<not> KHeap_is_leaf 2 sz i" "2 \<le> sz"
  shows "\<not> BinaryHeap_is_leaf sz i"
  using assms by (simp add: KHeap_is_leaf_def BinaryHeap_is_leaf_def size_sub_def)

lemma KHeap_scan_no_child:
  assumes "\<And>j. j < K \<Longrightarrow> len \<le> child K i j"
  shows "KHeap_scan t K len xs i c = Inr c"
proof -
  have step: "KHeap_scan_step t K len xs i j (Inr c) = Inr c" if "j < K" for j
    using assms [OF that] by (simp add: KHeap_scan_step_def Let_def not_less [symmetric])
  have "fold (KHeap_scan_step t K len xs i) js (Inr c) = Inr c" if "set js \<subseteq> {0..<K}" for js
    using that by (induction js) (simp_all add: step)
  then show ?thesis by (simp add: KHeap_scan_def)
qed

lemma BinaryHeap_loop_eq_KHeap_loop:
  assumes "seam_ok sw P" "P h" "len = length (nodes h)" "c = i"
  shows "BinaryHeap_heapify_down_loop sw t len i h = KHeap_heapify_down_loop sw t 2 len i c h"
  using assms
proof (induction sw t "2::nat" len i c h rule: KHeap_heapify_down_loop.induct)
  case (1 sw t len i c h)
  note [simp] = Heap_size_def
  show ?case
  proof (cases "KHeap_is_leaf 2 (Heap_size h) i")
    case True
    then have "\<And>j. len \<le> child 2 i j"
      using KHeap_is_leaf_child [of 2 "length (nodes h)" i] "1.prems" by simp
    then have "KHeap_scan t 2 len (nodes h) i i = Inr i"
      by (intro KHeap_scan_no_child) simp
    with True show ?thesis
      by (subst BinaryHeap_heapify_down_loop.simps, subst KHeap_heapify_down_loop.simps)
        (simp add: BinaryHeap_comp_est_eq_scan)
  next
    case leaf: False
    show ?thesis
    proof (cases "BinaryHeap_is_leaf (Heap_size h) i")
      case True
      with leaf not_KHeap_is_leaf_2 [of "length (nodes h)" i] have "length (nodes h) < 2"
        by force
      moreover have "Suc 0 \<le> child 2 i j" for j by (simp add: child_def)
      ultimately have "\<And>j. len \<le> child 2 i j"
        using "1.prems" by (metis One_nat_def Suc_1 le_trans less_Suc_eq_le)
      then have "KHeap_scan t 2 len (nodes h) i i = Inr i"
        by (intro KHeap_scan_no_child) simp
      with True leaf "1.prems" show ?thesis
        by (subst BinaryHeap_heapify_down_loop.simps, subst KHeap_heapify_down_loop.simps) simp
    next
      case bleaf: False
      from KHeap_scan_total [of len "nodes h" t 2 i] "1.prems"
      obtain c' where c': "KHeap_scan t 2 len (nodes h) i c = Inr c'"
        by auto
      show ?thesis
      proof (cases "i = c'")
        case True
        with leaf bleaf c' "1.prems" show ?thesis
          by (subst BinaryHeap_heapify_down_loop.simps, subst KHeap_heapify_down_loop.simps)
            (simp add: BinaryHeap_comp_est_eq_scan)
      next
        case ne: False
        from KHeap_scan_range [OF c'] ne "1.prems" have rng: "i < c'" "c' < length (nodes h)"
          by auto
        then have "i < length (nodes h)" by simp
        from seam_okD [OF "1.prems"(1,2) this rng(2)]
        obtain h1 where h1: "sw i c' h = Inr h1" "P h1"
          "nodes h1 = (nodes h)[i := nodes h ! c', c' := nodes h ! i]"
          by blast
        have len1: "len = length (nodes h1)"
          using h1(3) "1.prems" by simp
        from "1.hyps" [OF leaf c' ne h1(1) "1.prems"(1) h1(2) len1]
        have "BinaryHeap_heapify_down_loop sw t len c' h1
            = KHeap_heapify_down_loop sw t 2 len c' c' h1"
          by simp
        with leaf bleaf c' ne h1(1) "1.prems" show ?thesis
          by (subst BinaryHeap_heapify_down_loop.simps, subst KHeap_heapify_down_loop.simps)
            (simp add: BinaryHeap_comp_est_eq_scan)
      qed
    qed
  qed
qed

lemma BinaryHeap_heapify_down_eq_KHeap:
  assumes "seam_ok sw P" "P h"
  shows "BinaryHeap_heapify_down sw t i h = KHeap_heapify_down sw t 2 i h"
  using BinaryHeap_loop_eq_KHeap_loop [OF assms, of "length (nodes h)" i i t]
  by (simp add: BinaryHeap_heapify_down_def KHeap_heapify_down_def Heap_size_def)

lemma KHeap_heapify_down_ok:
  assumes "seam_ok sw P" "P h"
  shows "\<exists>h'. KHeap_heapify_down sw t K i h = Inr h' \<and> P h' \<and>
           length (nodes h') = length (nodes h) \<and> mset (nodes h') = mset (nodes h)"
  using KHeap_heapify_down_loop_ok [OF assms, of "length (nodes h)" i i t K]
  by (simp add: KHeap_heapify_down_def Heap_size_def)

lemma heapify_down_KHeap_2: 
  assumes "seam_ok sw P" "P h"
  shows "heapify_down sw t BinaryHeap i h = heapify_down sw t (KHeap 2) i h"
  using BinaryHeap_heapify_down_eq_KHeap [OF assms] by simp

lemma heapify_down_ok:
  assumes "seam_ok sw P" "P h"
  shows "\<exists>h'. heapify_down sw t cls i h = Inr h' \<and> P h' \<and>
           length (nodes h') = length (nodes h) \<and> mset (nodes h') = mset (nodes h)"
proof (cases cls)
  case BinaryHeap
  then show ?thesis
    using KHeap_heapify_down_ok [OF assms, of t 2 i] BinaryHeap_heapify_down_eq_KHeap [OF assms, of t i]
    by simp
next
  case (KHeap K)
  then show ?thesis
    using KHeap_heapify_down_ok [OF assms, of t K i] by simp
qed

lemma build_heap_loop_ok:
  assumes "\<And>n h. P h \<Longrightarrow> \<exists>h'. down n h = Inr h' \<and> P h' \<and>
           length (nodes h') = length (nodes h) \<and> mset (nodes h') = mset (nodes h)"
    and "P h"
  shows "\<exists>h'. build_heap_loop down n h = Inr h' \<and> P h' \<and>
           length (nodes h') = length (nodes h) \<and> mset (nodes h') = mset (nodes h)"
  using assms(2)
proof (induction n arbitrary: h)
  case 0
  then show ?case by simp
next
  case (Suc n)
  from assms(1) [OF Suc.prems, of n] obtain h1 where h1: "down n h = Inr h1" "P h1"
    "length (nodes h1) = length (nodes h)" "mset (nodes h1) = mset (nodes h)"
    by blast
  from Suc.IH [OF h1(2)] h1 show ?case by simp
qed

lemma build_heap_loop_cong:
  assumes "\<And>n h. P h \<Longrightarrow> down n h = down' n h"
    and "\<And>n h h'. P h \<Longrightarrow> down n h = Inr h' \<Longrightarrow> P h'"
    and "P h"
  shows "build_heap_loop down n h = build_heap_loop down' n h"
  using assms(3)
proof (induction n arbitrary: h)
  case 0
  then show ?case by simp
next
  case (Suc n)
  show ?case
  proof (cases "down n h")
    case (Inl e)
    moreover from this assms(1) [OF Suc.prems, of n] have "down' n h = Inl e" by simp
    ultimately show ?thesis by simp
  next
    case (Inr h1)
    with assms(2) [OF Suc.prems, of n h1] have "P h1" by simp
    moreover from Inr assms(1) [OF Suc.prems, of n] have "down' n h = Inr h1" by simp
    ultimately show ?thesis using Suc.IH [of h1] Inr by simp
  qed
qed

lemma build_heap_KHeap_2:
  assumes "seam_ok sw P" "P h"
  shows "build_heap sw t BinaryHeap h = build_heap sw t (KHeap 2) h"
proof -
  have "build_heap_loop (BinaryHeap_heapify_down sw t) n h
      = build_heap_loop (KHeap_heapify_down sw t 2) n h" for n
  proof (rule build_heap_loop_cong [where P = P])
    show "BinaryHeap_heapify_down sw t n h = KHeap_heapify_down sw t 2 n h" if "P h" for n h
      using BinaryHeap_heapify_down_eq_KHeap [OF assms(1) that] .
    show "P h'" if "P h" "BinaryHeap_heapify_down sw t n h = Inr h'" for n h h'
      using heapify_down_ok [OF assms(1) that(1), of t BinaryHeap n] that(2) by simp
    show "P h" by fact
  qed
  then show ?thesis
    unfolding build_heap.simps BinaryHeap_build_heap_def KHeap_build_heap_def by blast
qed

lemma build_heap_ok:
  assumes "seam_ok sw P" "P h"
  shows "\<exists>h'. build_heap sw t cls h = Inr h' \<and> P h' \<and>
           length (nodes h') = length (nodes h) \<and> mset (nodes h') = mset (nodes h)"
proof -
  have down: "\<exists>h'. heapify_down sw t cls n h = Inr h' \<and> P h' \<and>
      length (nodes h') = length (nodes h) \<and> mset (nodes h') = mset (nodes h)"
    if "P h" for n h cls
    using heapify_down_ok [OF assms(1) that] .
  show ?thesis
  proof (cases cls)
    case BinaryHeap
    have "\<exists>h'. build_heap_loop (BinaryHeap_heapify_down sw t) n h = Inr h' \<and> P h' \<and>
        length (nodes h') = length (nodes h) \<and> mset (nodes h') = mset (nodes h)" for n
      by (rule build_heap_loop_ok [where P = P]) (use down [where cls = BinaryHeap] assms(2) in simp_all)
    then show ?thesis
      unfolding BinaryHeap build_heap.simps BinaryHeap_build_heap_def by blast
  next
    case (KHeap K)
    have "\<exists>h'. build_heap_loop (KHeap_heapify_down sw t K) n h = Inr h' \<and> P h' \<and>
        length (nodes h') = length (nodes h) \<and> mset (nodes h') = mset (nodes h)" for n
      by (rule build_heap_loop_ok [where P = P]) (use down [where cls = "KHeap K"] assms(2) in simp_all)
    then show ?thesis
      unfolding KHeap build_heap.simps KHeap_build_heap_def by blast
  qed
qed

lemma heapify_ok:
  assumes "seam_ok sw P" "P h"
  shows "\<exists>h'. heapify sw t cls IsHeap h = Inr h' \<and> P h' \<and>
           length (nodes h') = length (nodes h) \<and> mset (nodes h') = mset (nodes h)"
  using build_heap_ok [OF assms, of t cls] assms(2) by (simp add: heapify_def)

lemma parent_less: "0 < i \<Longrightarrow> parent cls i < i"
  by (cases cls) (auto simp: size_sub_def intro: le_less_trans [OF div_le_dividend])

lemma heapify_up_ok:
  assumes "seam_ok sw P" "P h" "i < length (nodes h)"
  shows "\<exists>h'. heapify_up sw t cls i h = Inr h' \<and> P h' \<and>
           length (nodes h') = length (nodes h) \<and> mset (nodes h') = mset (nodes h)"
  using assms
proof (induction sw t cls i h rule: heapify_up.induct)
  case (1 sw t cls i h)
  show ?case
  proof (cases "0 < i \<and> Compare t (nodes h ! parent cls i) (nodes h ! i)")
    case False
    show ?thesis
    proof (cases "i = 0")
      case True
      with "1.prems" show ?thesis by (subst heapify_up.simps) simp
    next
      case pos: False
      then have "parent cls i < length (nodes h)"
        using parent_less [of i cls] "1.prems"(3) by simp
      with False pos "1.prems" show ?thesis
        by (subst heapify_up.simps) (simp add: comp_at_checked_def)
    qed
  next
    case True
    then have p: "parent cls i < i" using parent_less by simp
    with "1.prems" have pl: "parent cls i < length (nodes h)" by simp
    from True p "1.prems" have c: "comp_at_checked t (nodes h) (parent cls i) i = Inr True"
      by (simp add: comp_at_checked_def)
    from seam_okD [OF "1.prems"(1,2,3) pl]
    obtain h1 where h1: "sw i (parent cls i) h = Inr h1" "P h1"
      "nodes h1 = (nodes h)[i := nodes h ! parent cls i, parent cls i := nodes h ! i]"
      by blast
    have len1: "length (nodes h1) = length (nodes h)" and ms1: "mset (nodes h1) = mset (nodes h)"
      using h1(3) pl "1.prems"(3) by (simp_all add: mset_swap)
    from "1.IH" [OF _ c _ refl h1(1) "1.prems"(1) h1(2)] True pl len1
    obtain h' where "heapify_up sw t cls (parent cls i) h1 = Inr h'" "P h'"
      "length (nodes h') = length (nodes h1)" "mset (nodes h') = mset (nodes h1)"
      by auto
    with True c h1(1) len1 ms1 show ?thesis
      by (subst heapify_up.simps) simp
  qed
qed

section \<open>The heap property\<close>

text \<open>
  The child slots of slot \<open>i\<close>, and the heap property as the specification words it:
  for every slot \<open>i\<close> and every child slot \<open>c\<close> inside the vector,
  \<^verbatim>\<open>comp(nodes[i], nodes[c])\<close> is false.
\<close>

fun children :: "heap_class \<Rightarrow> nat \<Rightarrow> nat list" where
  "children BinaryHeap i = [left i, right i]"
| "children (KHeap K) i = map (child K i) [0..<K]"

definition heap_property :: "heap_type \<Rightarrow> heap_class \<Rightarrow> ('a::linorder) list \<Rightarrow> bool" where
  "heap_property t cls xs \<longleftrightarrow>
     (\<forall>i \<in> set [0..<length xs]. \<forall>c \<in> set (children cls i).
        c < length xs \<longrightarrow> \<not> Compare t (xs ! i) (xs ! c))"

section \<open>Index arithmetic\<close>

lemma parent_child: "j < K \<Longrightarrow> parent (KHeap K) (child K i j) = i"
  by (simp add: child_def size_sub_def)

lemma child_inj: "j < K \<Longrightarrow> j' < K \<Longrightarrow> child K m j = child K i j' \<Longrightarrow> m = i"
  by (metis parent_child)

lemma child_parent:
  assumes "0 < m" "0 < K"
  shows "child K (parent (KHeap K) m) ((m - 1) mod K) = m" "(m - 1) mod K < K"
  using assms by (simp_all add: child_def size_sub_def)

lemma parent_Binary: "parent BinaryHeap i = parent (KHeap 2) i"
  by simp

section \<open>The local heap property\<close>

text \<open>
  \<open>loc t K xs i\<close>: slot \<open>i\<close> is in order with each of its children. \<open>arity\<close> reads
  the branching factor of a strategy, so that the binary strategy can be treated as the
  k-ary one at two.
\<close>

definition loc :: "heap_type \<Rightarrow> nat \<Rightarrow> ('a::linorder) list \<Rightarrow> nat \<Rightarrow> bool" where
  "loc t K xs i \<longleftrightarrow>
     (\<forall>j<K. child K i j < length xs \<longrightarrow> \<not> Compare t (xs ! i) (xs ! child K i j))"

definition arity :: "heap_class \<Rightarrow> nat" where
  "arity cls = (case cls of BinaryHeap \<Rightarrow> 2 | KHeap K \<Rightarrow> K)"

lemma set_children: "set (children cls i) = child (arity cls) i ` {0..<arity cls}"
proof (cases cls)
  case BinaryHeap
  have "{0..<2::nat} = {0, 1}" by auto
  with BinaryHeap show ?thesis by (simp add: arity_def left_def right_def child_def)
next
  case (KHeap K)
  then show ?thesis by (simp add: arity_def)
qed

lemma heap_property_iff:
  "heap_property t cls xs \<longleftrightarrow> (\<forall>m<length xs. loc t (arity cls) xs m)"
  by (auto simp: heap_property_def set_children loc_def)

section \<open>What the scan of the children returns\<close>

definition scanned :: "heap_type \<Rightarrow> nat \<Rightarrow> nat \<Rightarrow> ('a::linorder) list \<Rightarrow> nat \<Rightarrow> nat \<Rightarrow> nat \<Rightarrow> bool" where
  "scanned t K len xs i n c \<longleftrightarrow>
     (c = i \<or> (\<exists>j<n. c = child K i j \<and> c < len)) \<and>
     (\<forall>j<n. child K i j < len \<longrightarrow> \<not> Compare t (xs ! c) (xs ! child K i j)) \<and>
     \<not> Compare t (xs ! c) (xs ! i) \<and>
     (c \<noteq> i \<longrightarrow> Compare t (xs ! i) (xs ! c))"

lemma scanned_step:
  assumes "scanned t K len xs i n c0" "KHeap_scan_step t K len xs i n (Inr c0) = Inr c"
  shows "scanned t K len xs i (Suc n) c"
proof (cases "child K i n < len \<and> Compare t (xs ! c0) (xs ! child K i n)")
  case True
  with assms(2) have c: "c = child K i n"
    by (auto simp: KHeap_scan_step_def Let_def comp_at_def split: if_splits)
  have strict: "Compare t (xs ! c0) (xs ! c)" using True c by simp
  have "\<not> Compare t (xs ! c) (xs ! child K i j)" if "j < Suc n" "child K i j < len" for j
  proof (cases "j = n")
    case True
    with c show ?thesis by simp
  next
    case False
    with that assms(1) have "\<not> Compare t (xs ! c0) (xs ! child K i j)"
      by (simp add: scanned_def)
    with strict show ?thesis by (rule Compare_not_trans)
  qed
  moreover have "\<not> Compare t (xs ! c) (xs ! i)"
    using strict assms(1) Compare_not_trans by (auto simp: scanned_def)
  moreover have "Compare t (xs ! i) (xs ! c)"
  proof (cases "c0 = i")
    case True
    with strict show ?thesis by simp
  next
    case False
    with assms(1) have "Compare t (xs ! i) (xs ! c0)" by (simp add: scanned_def)
    with strict show ?thesis by (cases t) (auto simp: Compare_def)
  qed
  ultimately show ?thesis
    using True c by (auto simp: scanned_def)
next
  case False
  with assms(2) have c: "c = c0"
    by (auto simp: KHeap_scan_step_def Let_def comp_at_def split: if_splits)
  from False assms(1) show ?thesis
    unfolding scanned_def c by (auto simp: less_Suc_eq)
qed

lemma scanned_fold:
  assumes "fold (KHeap_scan_step t K len xs i) [0..<n] (Inr i) = Inr c" "0 < K"
  shows "scanned t K len xs i n c"
  using assms(1)
proof (induction n arbitrary: c)
  case 0
  then show ?case by (simp add: scanned_def)
next
  case (Suc n)
  then have step: "KHeap_scan_step t K len xs i n
      (fold (KHeap_scan_step t K len xs i) [0..<n] (Inr i)) = Inr c"
    by simp
  from KHeap_scan_step_range [OF step assms(2)]
  obtain c0 where c0: "fold (KHeap_scan_step t K len xs i) [0..<n] (Inr i) = Inr c0"
    by blast
  from scanned_step [OF Suc.IH [OF c0]] step c0 show ?case by simp
qed

lemma KHeap_scan_scanned:
  assumes "KHeap_scan t K len xs i i = Inr c" "0 < K"
  shows "scanned t K len xs i K c"
  using scanned_fold [of t K len xs i K c] assms by (simp add: KHeap_scan_def)

lemma KHeap_scan_loc:
  assumes "loc t K xs i" "len \<le> length xs"
  shows "KHeap_scan t K len xs i i = Inr i"
proof -
  have step: "KHeap_scan_step t K len xs i j (Inr i) = Inr i" if "j < K" for j
  proof -
    from that have "0 < K" by simp
    from child_gt [OF this, of i j] assms that show ?thesis
      by (auto simp: KHeap_scan_step_def Let_def comp_at_def loc_def)
  qed
  have "fold (KHeap_scan_step t K len xs i) js (Inr i) = Inr i" if "set js \<subseteq> {0..<K}" for js
    using that by (induction js) (simp_all add: step)
  then show ?thesis by (simp add: KHeap_scan_def)
qed

lemma KHeap_heapify_down_loc:
  assumes "loc t K (nodes h) i"
  shows "KHeap_heapify_down sw t K i h = Inr h"
  using KHeap_scan_loc [OF assms, of "length (nodes h)"]
  unfolding KHeap_heapify_down_def
  by (subst KHeap_heapify_down_loop.simps) (simp add: Heap_size_def)

lemma BinaryHeap_heapify_down_loc:
  assumes "loc t 2 (nodes h) i"
  shows "BinaryHeap_heapify_down sw t i h = Inr h"
  using KHeap_scan_loc [OF assms, of "length (nodes h)"]
  unfolding BinaryHeap_heapify_down_def
  by (subst BinaryHeap_heapify_down_loop.simps)
    (simp add: Heap_size_def BinaryHeap_comp_est_eq_scan)

lemma heapify_down_loc:
  assumes "loc t (arity cls) (nodes h) i"
  shows "heapify_down sw t cls i h = Inr h"
  using assms BinaryHeap_heapify_down_loc KHeap_heapify_down_loc
  by (cases cls) (auto simp: arity_def)

lemma KHeap_is_leaf_loc:
  assumes "KHeap_is_leaf K (length xs) i"
  shows "loc t K xs i"
  unfolding loc_def
proof (intro allI impI)
  fix j assume "j < K" "child K i j < length xs"
  with KHeap_is_leaf_child [OF assms, of j] show "\<not> Compare t (xs ! i) (xs ! child K i j)"
    by simp
qed

section \<open>Sifting down restores the heap property below a slot\<close>

definition sink_inv :: "heap_type \<Rightarrow> nat \<Rightarrow> ('a::linorder) list \<Rightarrow> nat \<Rightarrow> nat \<Rightarrow> bool" where
  "sink_inv t K xs k i \<longleftrightarrow>
     (\<forall>m. k \<le> m \<and> m < length xs \<and> m \<noteq> i \<longrightarrow> loc t K xs m) \<and>
     (0 < i \<and> k \<le> parent (KHeap K) i \<longrightarrow>
        (\<forall>j<K. child K i j < length xs \<longrightarrow>
           \<not> Compare t (xs ! parent (KHeap K) i) (xs ! child K i j)))"

lemma sink_inv_exit:
  assumes "sink_inv t K xs k i" "loc t K xs i"
  shows "\<forall>m. k \<le> m \<and> m < length xs \<longrightarrow> loc t K xs m"
  using assms unfolding sink_inv_def by metis

lemma sink_inv_swap:
  assumes inv: "sink_inv t K xs k i" and sc: "scanned t K (length xs) xs i K c"
    and ne: "c \<noteq> i" and K: "0 < K" and k: "k \<le> i"
  shows "sink_inv t K (xs[i := xs ! c, c := xs ! i]) k c"
proof -
  let ?ys = "xs[i := xs ! c, c := xs ! i]"
  from sc ne obtain jc where jc: "jc < K" "c = child K i jc" "c < length xs"
    by (auto simp: scanned_def)
  have ic: "i < c" using jc child_gt [OF K] by simp
  then have il: "i < length xs" using jc by simp
  have ys_i: "?ys ! i = xs ! c" using ic il jc by simp
  have ys_c: "?ys ! c = xs ! i" using jc by simp
  have ys_o: "?ys ! m = xs ! m" if "m \<noteq> i" "m \<noteq> c" for m using that by simp
  have dom: "\<not> Compare t (xs ! c) (xs ! child K i j)" if "j < K" "child K i j < length xs" for j
    using sc that by (simp add: scanned_def)
  have ci: "\<not> Compare t (xs ! c) (xs ! i)" using sc by (simp add: scanned_def)
  have locc: "loc t K xs c"
    using inv jc ic k ne unfolding sink_inv_def by (metis le_trans less_imp_le_nat)
  have "loc t K ?ys m" if m: "k \<le> m" "m < length ?ys" "m \<noteq> c" for m
    unfolding loc_def
  proof (intro allI impI)
    fix j assume j: "j < K" "child K m j < length ?ys"
    let ?s = "child K m j"
    have ms: "m < ?s" using child_gt [OF K] .
    show "\<not> Compare t (?ys ! m) (?ys ! ?s)"
    proof (cases "m = i")
      case True
      show ?thesis
      proof (cases "?s = c")
        case True
        with \<open>m = i\<close> ys_i ys_c ci show ?thesis by simp
      next
        case False
        with ms \<open>m = i\<close> have "?ys ! ?s = xs ! ?s" by (intro ys_o) auto
        with dom [of j] j \<open>m = i\<close> ys_i show ?thesis by simp
      qed
    next
      case mi: False
      have sc': "?s \<noteq> c" using child_inj [OF j(1) jc(1)] jc(2) mi by auto
      have ym: "?ys ! m = xs ! m" using mi m(3) by (intro ys_o)
      show ?thesis
      proof (cases "?s = i")
        case True
        then have "parent (KHeap K) i = m" using parent_child [OF j(1), of m] by simp
        moreover have "0 < i" using True ms by simp
        ultimately have "\<not> Compare t (xs ! m) (xs ! child K i jc)"
          using inv m(1) jc unfolding sink_inv_def by auto
        with True ym ys_i jc show ?thesis by simp
      next
        case False
        with sc' have "?ys ! ?s = xs ! ?s" by (intro ys_o)
        moreover have "loc t K xs m" using inv m mi unfolding sink_inv_def by simp
        ultimately show ?thesis using ym j by (simp add: loc_def)
      qed
    qed
  qed
  moreover have "\<not> Compare t (?ys ! parent (KHeap K) c) (?ys ! child K c j)"
    if "j < K" "child K c j < length ?ys" for j
  proof -
    have "parent (KHeap K) c = i" using jc parent_child by simp
    moreover have "c < child K c j" using child_gt [OF K] .
    then have "?ys ! child K c j = xs ! child K c j" using ic by (intro ys_o) auto
    ultimately show ?thesis using locc that ys_i by (simp add: loc_def)
  qed
  ultimately show ?thesis unfolding sink_inv_def by simp
qed

lemma KHeap_heapify_down_loop_sink:
  assumes "seam_ok sw P" "P h" "len = length (nodes h)" "c = i" "0 < K"
    "sink_inv t K (nodes h) k i" "k \<le> i"
  shows "\<exists>h'. KHeap_heapify_down_loop sw t K len i c h = Inr h' \<and> P h' \<and>
           length (nodes h') = length (nodes h) \<and> mset (nodes h') = mset (nodes h) \<and>
           (\<forall>m. k \<le> m \<and> m < length (nodes h') \<longrightarrow> loc t K (nodes h') m)"
  using assms
proof (induction sw t K len i c h rule: KHeap_heapify_down_loop.induct)
  case (1 sw t K len i c h)
  note [simp] = Heap_size_def
  show ?case
  proof (cases "KHeap_is_leaf K (Heap_size h) i")
    case True
    then have "loc t K (nodes h) i" using KHeap_is_leaf_loc by simp
    from sink_inv_exit [OF "1.prems"(6) this] True "1.prems" show ?thesis
      by (subst KHeap_heapify_down_loop.simps) simp
  next
    case leaf: False
    from KHeap_scan_total [of len "nodes h" t K i] "1.prems"
    obtain c' where c': "KHeap_scan t K len (nodes h) i c = Inr c'"
      by auto
    then have sc: "scanned t K (length (nodes h)) (nodes h) i K c'"
      using KHeap_scan_scanned "1.prems" by simp
    show ?thesis
    proof (cases "i = c'")
      case True
      with sc have "loc t K (nodes h) i" by (simp add: scanned_def loc_def)
      from sink_inv_exit [OF "1.prems"(6) this] True leaf c' "1.prems" show ?thesis
        by (subst KHeap_heapify_down_loop.simps) simp
    next
      case ne: False
      from KHeap_scan_range [OF c'] ne "1.prems" have rng: "i < c'" "c' < length (nodes h)"
        by auto
      then have "i < length (nodes h)" by simp
      from seam_okD [OF "1.prems"(1,2) this rng(2)]
      obtain h1 where h1: "sw i c' h = Inr h1" "P h1"
        "nodes h1 = (nodes h)[i := nodes h ! c', c' := nodes h ! i]"
        by blast
      have len1: "length (nodes h1) = length (nodes h)" and ms1: "mset (nodes h1) = mset (nodes h)"
        using h1(3) rng \<open>i < length (nodes h)\<close> by (simp_all add: mset_swap)
      have inv1: "sink_inv t K (nodes h1) k c'"
        unfolding h1(3) using "1.prems"(6) sc ne "1.prems"(5,7) by (intro sink_inv_swap) auto
      have "k \<le> c'" using rng "1.prems"(7) by simp
      from "1.IH" [OF leaf c' ne h1(1) "1.prems"(1) h1(2) _ refl "1.prems"(5) inv1 this]
        len1 "1.prems"(3)
      obtain h' where "KHeap_heapify_down_loop sw t K len c' c' h1 = Inr h'" "P h'"
        "length (nodes h') = length (nodes h1)" "mset (nodes h') = mset (nodes h1)"
        "\<forall>m. k \<le> m \<and> m < length (nodes h') \<longrightarrow> loc t K (nodes h') m"
        by auto
      with leaf c' ne h1(1) len1 ms1 show ?thesis
        by (subst KHeap_heapify_down_loop.simps) simp
    qed
  qed
qed

lemma arity_simps [simp]: "arity BinaryHeap = 2" "arity (KHeap K) = K"
  by (simp_all add: arity_def)

lemma heapify_down_sink:
  assumes "seam_ok sw P" "P h" "0 < arity cls"
    "sink_inv t (arity cls) (nodes h) k i" "k \<le> i"
  shows "\<exists>h'. heapify_down sw t cls i h = Inr h' \<and> P h' \<and>
           length (nodes h') = length (nodes h) \<and> mset (nodes h') = mset (nodes h) \<and>
           (\<forall>m. k \<le> m \<and> m < length (nodes h') \<longrightarrow> loc t (arity cls) (nodes h') m)"
proof -
  have "\<exists>h'. KHeap_heapify_down sw t (arity cls) i h = Inr h' \<and> P h' \<and>
           length (nodes h') = length (nodes h) \<and> mset (nodes h') = mset (nodes h) \<and>
           (\<forall>m. k \<le> m \<and> m < length (nodes h') \<longrightarrow> loc t (arity cls) (nodes h') m)"
    unfolding KHeap_heapify_down_def Heap_size_def
    by (rule KHeap_heapify_down_loop_sink [OF assms(1,2) refl refl assms(3,4,5)])
  then show ?thesis
    using BinaryHeap_heapify_down_eq_KHeap [OF assms(1,2), of t i]
    by (cases cls) simp_all
qed

section \<open>Building a heap\<close>

definition heap_from :: "heap_type \<Rightarrow> nat \<Rightarrow> ('a::linorder) list \<Rightarrow> nat \<Rightarrow> bool" where
  "heap_from t K xs k \<longleftrightarrow> (\<forall>m. k \<le> m \<and> m < length xs \<longrightarrow> loc t K xs m)"

lemma heap_from_0: "heap_from t (arity cls) xs 0 \<longleftrightarrow> heap_property t cls xs"
  by (simp add: heap_from_def heap_property_iff)

lemma heap_from_start:
  assumes "0 < K"
  shows "heap_from t K xs (length xs div K + 1)"
  unfolding heap_from_def loc_def
proof (intro allI impI)
  fix m j
  assume m: "length xs div K + 1 \<le> m \<and> m < length xs" and "child K m j < length xs"
  have "length xs < K * (length xs div K + 1)"
    using assms by (metis Suc_eq_plus1 dividend_less_times_div mult.commute mult_Suc)
  also have "\<dots> \<le> K * m" using m by (intro mult_le_mono2) simp
  finally have "length xs < child K m j" by (simp add: child_def)
  with \<open>child K m j < length xs\<close> show "\<not> Compare t (xs ! m) (xs ! child K m j)" by simp
qed

lemma heap_from_sink_inv:
  assumes "heap_from t K xs (Suc n)"
  shows "sink_inv t K xs n n"
proof -
  have "\<not> n \<le> parent (KHeap K) n" if "0 < n"
    using parent_less [OF that, of "KHeap K"] by simp
  with assms show ?thesis
    unfolding sink_inv_def heap_from_def
    by (metis Suc_leI le_neq_implies_less)
qed

lemma build_heap_loop_heap_from:
  assumes "seam_ok sw P" "0 < arity cls"
  shows "P h \<Longrightarrow> heap_from t (arity cls) (nodes h) n \<Longrightarrow>
    \<exists>h'. build_heap_loop (heapify_down sw t cls) n h = Inr h' \<and> P h' \<and>
      length (nodes h') = length (nodes h) \<and> mset (nodes h') = mset (nodes h) \<and>
      heap_property t cls (nodes h')"
proof (induction n arbitrary: h)
  case 0
  then show ?case by (simp add: heap_from_0)
next
  case (Suc n)
  from heapify_down_sink [OF assms(1) Suc.prems(1) assms(2) heap_from_sink_inv [OF Suc.prems(2)]]
  obtain h1 where h1: "heapify_down sw t cls n h = Inr h1" "P h1"
    "length (nodes h1) = length (nodes h)" "mset (nodes h1) = mset (nodes h)"
    "\<forall>m. n \<le> m \<and> m < length (nodes h1) \<longrightarrow> loc t (arity cls) (nodes h1) m"
    by blast
  then have "heap_from t (arity cls) (nodes h1) n" by (simp add: heap_from_def)
  from Suc.IH [OF h1(2) this] h1 show ?case by simp
qed

lemma build_heap_eq_loop:
  "build_heap sw t cls h = build_heap_loop (heapify_down sw t cls) (Heap_size h div arity cls + 1) h"
proof -
  have "heapify_down sw t BinaryHeap = BinaryHeap_heapify_down sw t"
    "\<And>K. heapify_down sw t (KHeap K) = KHeap_heapify_down sw t K"
    by (simp_all add: fun_eq_iff)
  then show ?thesis
    by (cases cls) (simp_all only: build_heap.simps BinaryHeap_build_heap_def
        KHeap_build_heap_def arity_simps)
qed

lemma build_heap_heap_property:
  assumes "seam_ok sw P" "0 < arity cls" "P h"
  shows "\<exists>h'. build_heap sw t cls h = Inr h' \<and> P h' \<and>
      length (nodes h') = length (nodes h) \<and> mset (nodes h') = mset (nodes h) \<and>
      heap_property t cls (nodes h')"
  unfolding build_heap_eq_loop Heap_size_def
  by (rule build_heap_loop_heap_from [OF assms(1,2,3) heap_from_start [OF assms(2)]])

lemma build_heap_loop_id:
  assumes "\<And>i. i < n \<Longrightarrow> down i h = Inr h"
  shows "build_heap_loop down n h = Inr h"
  using assms by (induction n) simp_all

lemma build_heap_id:
  assumes "heap_property t cls (nodes h)" "0 < arity cls"
  shows "build_heap sw t cls h = Inr h"
  unfolding build_heap_eq_loop
proof (rule build_heap_loop_id)
  fix i
  have "loc t (arity cls) (nodes h) i"
  proof (cases "i < length (nodes h)")
    case True
    with assms(1) show ?thesis by (simp add: heap_property_iff)
  next
    case False
    then have "length (nodes h) \<le> child (arity cls) i j" for j
      using child_gt [OF assms(2), of i j] by simp
    then show ?thesis by (simp add: loc_def not_less [symmetric])
  qed
  then show "heapify_down sw t cls i h = Inr h" by (rule heapify_down_loc)
qed

section \<open>Removing the root\<close>

lemma Heap_pop_heap_property:
  assumes "heap_property t cls (nodes h)" "nodes h \<noteq> []" "0 < arity cls"
  shows "\<exists>h'. Heap_pop Heap_swap_nodes t cls h = Inr h' \<and>
      length (nodes h') = length (nodes h) - 1 \<and>
      mset (nodes h') = mset (nodes h) - {#nodes h ! 0#} \<and>
      heap_property t cls (nodes h')"
proof -
  let ?xs = "nodes h"
  let ?ys = "butlast (?xs[0 := last ?xs])"
  let ?h1 = "h\<lparr>nodes := ?ys\<rparr>"
  have len: "length ?ys = length ?xs - 1" by simp
  have nth: "?ys ! m = ?xs ! m" if "0 < m" "m < length ?ys" for m
    using that by (simp add: nth_butlast)
  have "loc t (arity cls) ?ys m" if "m < length ?ys" "m \<noteq> 0" for m
    unfolding loc_def
  proof (intro allI impI)
    fix j assume j: "j < arity cls" "child (arity cls) m j < length ?ys"
    have "m < child (arity cls) m j" using child_gt [OF assms(3)] .
    with j that nth have "?ys ! m = ?xs ! m" "?ys ! child (arity cls) m j = ?xs ! child (arity cls) m j"
      by auto
    moreover have "loc t (arity cls) ?xs m" using assms(1) that by (simp add: heap_property_iff)
    ultimately show "\<not> Compare t (?ys ! m) (?ys ! child (arity cls) m j)"
      using j by (simp add: loc_def)
  qed
  then have "sink_inv t (arity cls) (nodes ?h1) 0 0" by (simp add: sink_inv_def)
  from heapify_down_sink [OF Heap_swap_nodes_ok _ assms(3) this]
  obtain h' where h': "heapify_down Heap_swap_nodes t cls 0 ?h1 = Inr h'"
    "length (nodes h') = length (nodes ?h1)" "mset (nodes h') = mset (nodes ?h1)"
    "\<forall>m. m < length (nodes h') \<longrightarrow> loc t (arity cls) (nodes h') m"
    by auto
  have "mset ?ys = mset ?xs - {#?xs ! 0#}"
  proof (cases ?xs)
    case Nil
    with assms(2) show ?thesis by simp
  next
    case (Cons x xs')
    show ?thesis
    proof (cases "xs' = []")
      case True
      with Cons show ?thesis by simp
    next
      case False
      then have "mset (butlast (last xs' # xs')) = mset xs'"
        by (metis append_butlast_last_id butlast.simps(2) mset.simps(2) mset_append
            union_mset_add_mset_right add.right_neutral mset_zero_iff_right union_commute)
      with Cons False show ?thesis by simp
    qed
  qed
  with h' assms(2) show ?thesis
    by (simp add: Heap_pop_def Let_def heap_property_iff)
qed

section \<open>Sifting up\<close>

definition swim_inv :: "heap_type \<Rightarrow> nat \<Rightarrow> ('a::linorder) list \<Rightarrow> nat \<Rightarrow> bool" where
  "swim_inv t K xs i \<longleftrightarrow>
     (\<forall>m j. j < K \<and> child K m j < length xs \<and> child K m j \<noteq> i \<longrightarrow>
        \<not> Compare t (xs ! m) (xs ! child K m j)) \<and>
     (0 < i \<longrightarrow>
        (\<forall>j<K. child K i j < length xs \<longrightarrow>
           \<not> Compare t (xs ! parent (KHeap K) i) (xs ! child K i j)))"

lemma parent_arity: "parent cls i = parent (KHeap (arity cls)) i"
  by (cases cls) simp_all

lemma swim_inv_exit:
  assumes "swim_inv t K xs i" "i = 0 \<or> \<not> Compare t (xs ! parent (KHeap K) i) (xs ! i)" "0 < K"
  shows "loc t K xs m"
  unfolding loc_def
proof (intro allI impI)
  fix j assume j: "j < K" "child K m j < length xs"
  show "\<not> Compare t (xs ! m) (xs ! child K m j)"
  proof (cases "child K m j = i")
    case False
    with assms(1) j show ?thesis by (simp add: swim_inv_def)
  next
    case True
    then have "parent (KHeap K) i = m" using parent_child [OF j(1), of m] by simp
    moreover have "0 < i" using True child_gt [OF assms(3), of m j] by simp
    ultimately show ?thesis using assms(2) True by simp
  qed
qed

lemma swim_inv_swap:
  assumes inv: "swim_inv t K xs i" and i: "0 < i" "i < length xs" and K: "0 < K"
    and cmp: "Compare t (xs ! parent (KHeap K) i) (xs ! i)"
  shows "swim_inv t K (xs[i := xs ! parent (KHeap K) i, parent (KHeap K) i := xs ! i])
           (parent (KHeap K) i)"
proof -
  let ?p = "parent (KHeap K) i"
  let ?ys = "xs[i := xs ! ?p, ?p := xs ! i]"
  have pi: "?p < i" using parent_less [OF i(1)] .
  then have pl: "?p < length xs" using i by simp
  have ys_p: "?ys ! ?p = xs ! i" using pl by simp
  have ys_i: "?ys ! i = xs ! ?p" using pi i by simp
  have ys_o: "?ys ! m = xs ! m" if "m \<noteq> i" "m \<noteq> ?p" for m using that by simp
  have edge: "\<not> Compare t (xs ! m) (xs ! child K m j)"
    if "j < K" "child K m j < length xs" "child K m j \<noteq> i" for m j
    using inv that by (simp add: swim_inv_def)
  have gp: "\<not> Compare t (xs ! ?p) (xs ! child K i j)" if "j < K" "child K i j < length xs" for j
    using inv that i by (simp add: swim_inv_def)
  have "\<not> Compare t (?ys ! m) (?ys ! child K m j)"
    if j: "j < K" "child K m j < length ?ys" "child K m j \<noteq> ?p" for m j
  proof -
    let ?s = "child K m j"
    have ms: "m < ?s" using child_gt [OF K] .
    show ?thesis
    proof (cases "m = ?p")
      case True
      show ?thesis
      proof (cases "?s = i")
        case True
        with \<open>m = ?p\<close> ys_p ys_i cmp Compare_asym show ?thesis by metis
      next
        case False
        with j(3) have "?ys ! ?s = xs ! ?s" by (intro ys_o)
        moreover have "\<not> Compare t (xs ! ?p) (xs ! ?s)"
          using edge [of j m] j False True by simp
        with cmp have "\<not> Compare t (xs ! i) (xs ! ?s)" by (rule Compare_not_trans)
        ultimately show ?thesis using True ys_p by simp
      qed
    next
      case mp: False
      show ?thesis
      proof (cases "m = i")
        case True
        with ms pi have "?ys ! ?s = xs ! ?s" by (intro ys_o) auto
        with gp [of j] j True ys_i show ?thesis by simp
      next
        case False
        have "?s \<noteq> i" using parent_child [OF j(1), of m] mp by auto
        with j(3) have "?ys ! ?s = xs ! ?s" by (intro ys_o)
        moreover have "?ys ! m = xs ! m" using False mp by (intro ys_o)
        ultimately show ?thesis using edge [of j m] j \<open>?s \<noteq> i\<close> by simp
      qed
    qed
  qed
  moreover have "\<not> Compare t (?ys ! parent (KHeap K) ?p) (?ys ! child K ?p j)"
    if p: "0 < ?p" and j: "j < K" "child K ?p j < length ?ys" for j
  proof -
    let ?g = "parent (KHeap K) ?p"
    let ?s = "child K ?p j"
    have gp': "?g < ?p" using parent_less [OF p] .
    then have yg: "?ys ! ?g = xs ! ?g" using pi by (intro ys_o) auto
    have "\<not> Compare t (xs ! ?g) (xs ! child K ?g ((?p - 1) mod K))"
      using child_parent [OF p K] pl pi by (intro edge) auto
    then have gpe: "\<not> Compare t (xs ! ?g) (xs ! ?p)"
      using child_parent(1) [OF p K] by simp
    have ps: "?p < ?s" using child_gt [OF K] .
    show ?thesis
    proof (cases "?s = i")
      case True
      with ys_i yg gpe show ?thesis by simp
    next
      case False
      with ps have "?ys ! ?s = xs ! ?s" by (intro ys_o) auto
      moreover have "\<not> Compare t (xs ! ?p) (xs ! ?s)"
        using edge [of j ?p] j False by simp
      with gpe have "\<not> Compare t (xs ! ?g) (xs ! ?s)" by (rule not_Compare_trans)
      ultimately show ?thesis using yg by simp
    qed
  qed
  ultimately show ?thesis unfolding swim_inv_def by blast
qed

lemma heapify_up_swim:
  assumes "seam_ok sw P" "P h" "i < length (nodes h)" "0 < arity cls"
    "swim_inv t (arity cls) (nodes h) i"
  shows "\<exists>h'. heapify_up sw t cls i h = Inr h' \<and> P h' \<and>
           length (nodes h') = length (nodes h) \<and> mset (nodes h') = mset (nodes h) \<and>
           heap_property t cls (nodes h')"
  using assms
proof (induction sw t cls i h rule: heapify_up.induct)
  case (1 sw t cls i h)
  let ?p = "parent cls i"
  have pa: "?p = parent (KHeap (arity cls)) i" by (rule parent_arity)
  show ?case
  proof (cases "0 < i \<and> Compare t (nodes h ! ?p) (nodes h ! i)")
    case False
    then have "\<And>m. loc t (arity cls) (nodes h) m"
      using swim_inv_exit [OF "1.prems"(5) _ "1.prems"(4)] pa by auto
    then have hp: "heap_property t cls (nodes h)" by (simp add: heap_property_iff)
    show ?thesis
    proof (cases "i = 0")
      case True
      with "1.prems" hp show ?thesis by (subst heapify_up.simps) simp
    next
      case pos: False
      then have "?p < length (nodes h)"
        using parent_less [of i cls] "1.prems"(3) by simp
      with False pos "1.prems" hp show ?thesis
        by (subst heapify_up.simps) (simp add: comp_at_checked_def)
    qed
  next
    case True
    then have p: "?p < i" using parent_less by simp
    with "1.prems" have pl: "?p < length (nodes h)" by simp
    from True p "1.prems" have c: "comp_at_checked t (nodes h) ?p i = Inr True"
      by (simp add: comp_at_checked_def)
    from seam_okD [OF "1.prems"(1,2,3) pl]
    obtain h1 where h1: "sw i ?p h = Inr h1" "P h1"
      "nodes h1 = (nodes h)[i := nodes h ! ?p, ?p := nodes h ! i]"
      by blast
    have len1: "length (nodes h1) = length (nodes h)" and ms1: "mset (nodes h1) = mset (nodes h)"
      using h1(3) pl "1.prems"(3) by (simp_all add: mset_swap)
    have inv1: "swim_inv t (arity cls) (nodes h1) ?p"
      unfolding h1(3) using swim_inv_swap [OF "1.prems"(5) _ "1.prems"(3,4)] True pa by simp
    from "1.IH" [OF _ c _ refl h1(1) "1.prems"(1) h1(2) _ "1.prems"(4) inv1] True pl len1
    obtain h' where "heapify_up sw t cls ?p h1 = Inr h'" "P h'"
      "length (nodes h') = length (nodes h1)" "mset (nodes h') = mset (nodes h1)"
      "heap_property t cls (nodes h')"
      by auto
    with True c h1(1) len1 ms1 show ?thesis
      by (subst heapify_up.simps) simp
  qed
qed

lemma Heap_push_heap_property:
  assumes "heap_property t cls (nodes h)" "0 < arity cls"
  shows "\<exists>h'. Heap_push Heap_swap_nodes t cls x h = Inr h' \<and>
      length (nodes h') = length (nodes h) + 1 \<and>
      mset (nodes h') = add_mset x (mset (nodes h)) \<and>
      heap_property t cls (nodes h')"
proof -
  let ?xs = "nodes h"
  let ?n = "length ?xs"
  let ?K = "arity cls"
  let ?h1 = "h\<lparr>nodes := ?xs @ [x]\<rparr>"
  have "\<not> Compare t ((?xs @ [x]) ! m) ((?xs @ [x]) ! child ?K m j)"
    if "j < ?K" "child ?K m j < length (?xs @ [x])" "child ?K m j \<noteq> ?n" for m j
  proof -
    have s: "child ?K m j < ?n" using that by simp
    moreover have "m < child ?K m j" using child_gt [OF assms(2)] .
    ultimately have "m < ?n" by simp
    with s that(1) assms(1) show ?thesis
      by (simp add: heap_property_iff loc_def nth_append)
  qed
  moreover have "\<not> child ?K ?n j < length (?xs @ [x])" for j
    using child_gt [OF assms(2), of ?n j] by simp
  ultimately have "swim_inv t ?K (nodes ?h1) ?n"
    unfolding swim_inv_def by simp
  from heapify_up_swim [OF Heap_swap_nodes_ok _ _ assms(2) this]
  obtain h' where "heapify_up Heap_swap_nodes t cls ?n ?h1 = Inr h'"
    "length (nodes h') = length (nodes ?h1)" "mset (nodes h') = mset (nodes ?h1)"
    "heap_property t cls (nodes h')"
    by auto
  then show ?thesis
    by (simp add: Heap_push_def Heap_size_def Let_def)
qed

section \<open>The root of a heap\<close>

lemma heap_property_root:
  assumes "heap_property t cls xs" "0 < arity cls" "m < length xs"
  shows "\<not> Compare t (xs ! 0) (xs ! m)"
  using assms(3)
proof (induction m rule: less_induct)
  case (less m)
  show ?case
  proof (cases "m = 0")
    case True
    then show ?thesis by simp
  next
    case False
    let ?K = "arity cls"
    let ?p = "parent (KHeap ?K) m"
    from False have m: "0 < m" by simp
    have pm: "?p < m" using parent_less [OF m] .
    then have "\<not> Compare t (xs ! 0) (xs ! ?p)" using less by simp
    moreover have "\<not> Compare t (xs ! ?p) (xs ! m)"
    proof -
      have l: "loc t ?K xs ?p" using assms(1) pm less.prems by (simp add: heap_property_iff)
      note c = child_parent [OF m assms(2)]
      from l c less.prems show ?thesis unfolding loc_def by metis
    qed
    ultimately show ?thesis by (rule not_Compare_trans)
  qed
qed

section \<open>Construction of a k-ary heap\<close>

text \<open>
  C8. A k-ary heap with arity \<open>K \<le> 2\<close> or \<open>K > 64\<close> is refused when it is
  constructed (the template guard rejects the instantiation); for every \<open>K\<close> with
  \<open>2 < K \<le> 64\<close> the construction returns a heap, holding the input's elements.
\<close>

theorem make_k_heap_arity:
  "(make_k_heap t K IsHeap inputs = Inl arity_rejected \<longleftrightarrow> K \<le> 2 \<or> 64 < K) \<and>
   (2 < K \<and> K \<le> 64 \<longrightarrow>
      (\<exists>h. make_k_heap t K IsHeap inputs = Inr h \<and> mset (nodes h) = mset inputs))"
proof -
  obtain h where "heapify Heap_swap_nodes t (KHeap K) IsHeap \<lparr>nodes = inputs\<rparr> = Inr h"
    "mset (nodes h) = mset inputs"
    using heapify_ok [OF Heap_swap_nodes_ok, where h = "\<lparr>nodes = inputs\<rparr>" and t = t
        and cls = "KHeap K" and IsHeap = IsHeap]
    by auto
  then show ?thesis
    by (auto simp: make_k_heap_def)
qed

theorem make_k_heap_arity_witness:
  "make_k_heap max_heap 2 False [3, 1, 2 :: nat] = Inl arity_rejected \<and>
   make_k_heap max_heap 65 False [3, 1, 2 :: nat] = Inl arity_rejected \<and>
   make_k_heap max_heap 4 False [3, 1, 2 :: nat] \<noteq> Inl arity_rejected \<and>
   (\<exists>h. make_k_heap max_heap 64 False [3, 1, 2 :: nat] = Inr h \<and> mset (nodes h) = mset [3, 1, 2])"
  using make_k_heap_arity [of max_heap 2 False "[3, 1, 2 :: nat]"]
    make_k_heap_arity [of max_heap 65 False "[3, 1, 2 :: nat]"]
    make_k_heap_arity [of max_heap 4 False "[3, 1, 2 :: nat]"]
    make_k_heap_arity [of max_heap 64 False "[3, 1, 2 :: nat]"]
  by simp

section \<open>Whole heaps: construction, operation sequences, extraction\<close>

text \<open>
  The strategies that can be instantiated, and the factory of either strategy.
\<close>

definition valid_class :: "heap_class \<Rightarrow> bool" where
  "valid_class cls = (case cls of BinaryHeap \<Rightarrow> True | KHeap K \<Rightarrow> 2 < K \<and> K \<le> 64)"

definition Heap_make ::
  "heap_type \<Rightarrow> heap_class \<Rightarrow> bool \<Rightarrow> ('a::linorder) list \<Rightarrow> error + 'a Heap" where
  "Heap_make t cls IsHeap inputs =
     (case cls of
        BinaryHeap \<Rightarrow> make_heap t IsHeap inputs
      | KHeap K \<Rightarrow> make_k_heap t K IsHeap inputs)"

lemma Heap_pop_shrinks:
  assumes "Heap_pop Heap_swap_nodes t cls h = Inr h'"
  shows "length (nodes h') < length (nodes h)"
proof -
  from assms have ne: "nodes h \<noteq> []" by (auto simp: Heap_pop_def split: if_splits)
  let ?h1 = "h\<lparr>nodes := butlast ((nodes h)[0 := last (nodes h)])\<rparr>"
  from heapify_down_ok [OF Heap_swap_nodes_ok, where h = ?h1 and t = t and cls = cls and i = 0]
    assms ne
  have "length (nodes h') = length (nodes ?h1)"
    by (auto simp: Heap_pop_def Let_def)
  with ne show ?thesis by simp
qed

text \<open>
  The loop of the test suite: \<^verbatim>\<open>top()\<close> then \<^verbatim>\<open>pop()\<close> until the heap is
  \<^verbatim>\<open>empty()\<close>, collecting what \<^verbatim>\<open>top()\<close> returned.
\<close>

function extract_all ::
  "heap_type \<Rightarrow> heap_class \<Rightarrow> ('a::linorder, 'm) Heap_scheme \<Rightarrow> error + 'a list" where
  "extract_all t cls h =
     (if Heap_empty h then Inr []
      else
        (case Heap_top h of
           Inl e \<Rightarrow> Inl e
         | Inr x \<Rightarrow>
             (case Heap_pop Heap_swap_nodes t cls h of
                Inl e \<Rightarrow> Inl e
              | Inr h' \<Rightarrow>
                  (case extract_all t cls h' of
                     Inl e \<Rightarrow> Inl e
                   | Inr xs \<Rightarrow> Inr (x # xs)))))"
  by pat_completeness auto
termination
  by (relation "measure (\<lambda>(t, cls, h). length (nodes h))") (auto dest: Heap_pop_shrinks)

declare extract_all.simps [simp del]

definition pop_order ::
  "heap_type \<Rightarrow> heap_class \<Rightarrow> error + ('a::linorder, 'm) Heap_scheme \<Rightarrow> error + 'a list" where
  "pop_order t cls r = (case r of Inl e \<Rightarrow> Inl e | Inr h \<Rightarrow> extract_all t cls h)"

datatype 'a heap_op = Push 'a | Pop

fun Heap_run ::
  "heap_type \<Rightarrow> heap_class \<Rightarrow> ('a::linorder) heap_op list \<Rightarrow> ('a, 'm) Heap_scheme
   \<Rightarrow> error + ('a, 'm) Heap_scheme" where
  "Heap_run t cls [] h = Inr h"
| "Heap_run t cls (Push x # ops) h =
     (case Heap_push Heap_swap_nodes t cls x h of
        Inl e \<Rightarrow> Inl e
      | Inr h' \<Rightarrow> Heap_run t cls ops h')"
| "Heap_run t cls (Pop # ops) h =
     (case Heap_pop Heap_swap_nodes t cls h of
        Inl e \<Rightarrow> Inl e
      | Inr h' \<Rightarrow> Heap_run t cls ops h')"

lemma valid_class_arity: "valid_class cls \<Longrightarrow> 0 < arity cls"
  by (cases cls) (simp_all add: valid_class_def)

lemma Heap_make_eq:
  "valid_class cls \<Longrightarrow>
     Heap_make t cls IsHeap xs = heapify Heap_swap_nodes t cls IsHeap \<lparr>nodes = xs\<rparr>"
  by (cases cls) (simp_all add: Heap_make_def valid_class_def make_heap_def make_k_heap_def)

lemma Heap_make_build:
  assumes "valid_class cls"
  shows "\<exists>h. Heap_make t cls False xs = Inr h \<and> mset (nodes h) = mset xs \<and>
           length (nodes h) = length xs \<and> heap_property t cls (nodes h)"
  using build_heap_heap_property [OF Heap_swap_nodes_ok valid_class_arity [OF assms],
      where h = "\<lparr>nodes = xs\<rparr>" and t = t]
  by (auto simp: Heap_make_eq [OF assms] heapify_def)

lemma Heap_run_heap_property:
  assumes "valid_class cls"
  shows "heap_property t cls (nodes h) \<Longrightarrow> Heap_run t cls ops h = Inr h' \<Longrightarrow>
           heap_property t cls (nodes h')"
proof (induction ops arbitrary: h)
  case Nil
  then show ?case by simp
next
  case (Cons op ops)
  note K = valid_class_arity [OF assms]
  show ?case
  proof (cases op)
    case (Push x)
    from Heap_push_heap_property [OF Cons.prems(1) K, of x]
    obtain h1 where "Heap_push Heap_swap_nodes t cls x h = Inr h1" "heap_property t cls (nodes h1)"
      by blast
    with Cons Push show ?thesis by simp
  next
    case Pop
    with Cons.prems(2) have ne: "nodes h \<noteq> []"
      by (auto simp: Heap_pop_def split: if_splits)
    from Heap_pop_heap_property [OF Cons.prems(1) ne K]
    obtain h1 where "Heap_pop Heap_swap_nodes t cls h = Inr h1" "heap_property t cls (nodes h1)"
      by blast
    with Cons Pop show ?thesis by simp
  qed
qed

text \<open>
  C2. A heap constructed in build mode satisfies the heap property, whatever the
  input; a push, and a pop from a heap that is not empty, return and keep the heap
  property; hence it holds after every completed operation of every sequence of pushes
  and pops on a heap constructed in build mode. This holds for the binary strategy and
  for every admitted arity, for min and max heaps.
\<close>

theorem heap_property_invariant:
  assumes "valid_class cls"
  shows "(\<exists>h0. Heap_make t cls False xs = Inr h0 \<and> heap_property t cls (nodes h0) \<and>
            (\<forall>ops h'. Heap_run t cls ops h0 = Inr h' \<longrightarrow> heap_property t cls (nodes h'))) \<and>
         (heap_property t cls (nodes h) \<longrightarrow>
            (\<exists>h'. Heap_push Heap_swap_nodes t cls x h = Inr h' \<and>
                   heap_property t cls (nodes h')) \<and>
            (nodes h \<noteq> [] \<longrightarrow>
               (\<exists>h'. Heap_pop Heap_swap_nodes t cls h = Inr h' \<and>
                      heap_property t cls (nodes h'))))"
proof -
  note K = valid_class_arity [OF assms]
  from Heap_make_build [OF assms, of t xs]
  obtain h0 where h0: "Heap_make t cls False xs = Inr h0" "heap_property t cls (nodes h0)"
    by blast
  have "heap_property t cls (nodes h')" if "Heap_run t cls ops h0 = Inr h'" for ops h'
    using Heap_run_heap_property [OF assms h0(2) that] .
  with h0 have first: "\<exists>h0. Heap_make t cls False xs = Inr h0 \<and> heap_property t cls (nodes h0) \<and>
      (\<forall>ops h'. Heap_run t cls ops h0 = Inr h' \<longrightarrow> heap_property t cls (nodes h'))"
    by blast
  have "\<exists>h'. Heap_push Heap_swap_nodes t cls x h = Inr h' \<and> heap_property t cls (nodes h')"
    if "heap_property t cls (nodes h)"
    using Heap_push_heap_property [OF that K, of x] by blast
  moreover have "\<exists>h'. Heap_pop Heap_swap_nodes t cls h = Inr h' \<and> heap_property t cls (nodes h')"
    if "heap_property t cls (nodes h)" "nodes h \<noteq> []"
    using Heap_pop_heap_property [OF that K] by blast
  ultimately show ?thesis using first by blast
qed

theorem heap_property_invariant_witness:
  "valid_class (KHeap 4) \<and>
   heap_property min_heap (KHeap 4) (nodes \<lparr>nodes = [1, 30, 50 :: nat]\<rparr>) \<and>
   nodes \<lparr>nodes = [1, 30, 50 :: nat]\<rparr> \<noteq> [] \<and>
   (\<exists>h0 h1. Heap_make min_heap (KHeap 4) False [30, 1, 50, 20, 40, 60, 100 :: nat] = Inr h0 \<and>
      heap_property min_heap (KHeap 4) (nodes h0) \<and>
      Heap_run min_heap (KHeap 4) [Push 0, Pop, Push 35] h0 = Inr h1 \<and>
      heap_property min_heap (KHeap 4) (nodes h1)) \<and>
   (\<exists>h'. Heap_push Heap_swap_nodes min_heap (KHeap 4) 0 \<lparr>nodes = [1, 30, 50 :: nat]\<rparr> = Inr h' \<and>
      heap_property min_heap (KHeap 4) (nodes h')) \<and>
   (\<exists>h'. Heap_pop Heap_swap_nodes min_heap (KHeap 4) \<lparr>nodes = [1, 30, 50 :: nat]\<rparr> = Inr h' \<and>
      heap_property min_heap (KHeap 4) (nodes h'))"
proof -
  have v: "valid_class (KHeap 4)" by (simp add: valid_class_def)
  have hp: "heap_property min_heap (KHeap 4) (nodes \<lparr>nodes = [1, 30, 50 :: nat]\<rparr>)"
    by code_simp
  have mk: "Heap_make min_heap (KHeap 4) False [30, 1, 50, 20, 40, 60, 100 :: nat]
      = Inr \<lparr>nodes = [1, 30, 50, 20, 40, 60, 100]\<rparr>"
    by code_simp
  have run: "Heap_run min_heap (KHeap 4) [Push 0, Pop, Push 35]
      \<lparr>nodes = [1, 30, 50, 20, 40, 60, 100 :: nat]\<rparr> = Inr \<lparr>nodes = [1, 30, 50, 20, 40, 60, 100, 35]\<rparr>"
    by code_simp
  note inv = heap_property_invariant [OF v, of min_heap "[30, 1, 50, 20, 40, 60, 100 :: nat]"
      "\<lparr>nodes = [1, 30, 50 :: nat]\<rparr>" 0]
  from inv mk have all: "\<forall>ops h'. Heap_run min_heap (KHeap 4) ops
      \<lparr>nodes = [1, 30, 50, 20, 40, 60, 100 :: nat]\<rparr> = Inr h' \<longrightarrow>
      heap_property min_heap (KHeap 4) (nodes h')"
    by auto
  from all run have "heap_property min_heap (KHeap 4)
      (nodes \<lparr>nodes = [1, 30, 50, 20, 40, 60, 100, 35 :: nat]\<rparr>)"
    by blast
  moreover from inv mk have "heap_property min_heap (KHeap 4)
      (nodes \<lparr>nodes = [1, 30, 50, 20, 40, 60, 100 :: nat]\<rparr>)"
    by auto
  moreover have "nodes \<lparr>nodes = [1, 30, 50 :: nat]\<rparr> \<noteq> []" by simp
  moreover note inv [THEN conjunct2, rule_format, OF hp] v hp mk run
  ultimately show ?thesis by blast
qed

section \<open>Extraction order\<close>

lemma Heap_top_nth: "nodes h \<noteq> [] \<Longrightarrow> Heap_top h = Inr (nodes h ! 0)"
  by (cases "nodes h") (simp_all add: Heap_top_def)

lemma extract_all_sorted:
  assumes "valid_class cls"
  shows "heap_property t cls (nodes h) \<Longrightarrow>
    \<exists>ys. extract_all t cls h = Inr ys \<and> mset ys = mset (nodes h) \<and>
      sorted_wrt (\<lambda>a b. \<not> Compare t a b) ys"
proof (induction "length (nodes h)" arbitrary: h)
  case 0
  then show ?case
    by (subst extract_all.simps) (simp add: Heap_empty_def Heap_size_def)
next
  case (Suc n)
  note K = valid_class_arity [OF assms]
  from Suc.hyps(2) have ne: "nodes h \<noteq> []" by auto
  from Heap_pop_heap_property [OF Suc.prems ne K]
  obtain h1 where h1: "Heap_pop Heap_swap_nodes t cls h = Inr h1"
    "length (nodes h1) = length (nodes h) - 1"
    "mset (nodes h1) = mset (nodes h) - {#nodes h ! 0#}" "heap_property t cls (nodes h1)"
    by blast
  have "n = length (nodes h1)" using h1(2) Suc.hyps(2) by simp
  from Suc.hyps(1) [OF this h1(4)]
  obtain ys where ys: "extract_all t cls h1 = Inr ys" "mset ys = mset (nodes h1)"
    "sorted_wrt (\<lambda>a b. \<not> Compare t a b) ys"
    by auto
  have "\<not> Compare t (nodes h ! 0) y" if "y \<in> set ys" for y
  proof -
    from that ys(2) h1(3) have "y \<in># mset (nodes h) - {#nodes h ! 0#}"
      by (metis set_mset_mset)
    then have "y \<in> set (nodes h)" by (meson in_diffD set_mset_mset [THEN equalityD1] in_multiset_in_set)
    then obtain m where "m < length (nodes h)" "y = nodes h ! m"
      by (auto simp: in_set_conv_nth)
    with heap_property_root [OF Suc.prems K] show ?thesis by simp
  qed
  moreover have "mset (nodes h ! 0 # ys) = mset (nodes h)"
    using ys(2) h1(3) ne by (simp add: hd_conv_nth [symmetric])
  ultimately show ?case
    using ne h1(1) ys(1,3) Heap_top_nth [OF ne]
    by (subst extract_all.simps) (simp add: Heap_empty_def Heap_size_def)
qed

lemma sorted_wrt_Compare_sort:
  assumes "sorted_wrt (\<lambda>a b. \<not> Compare t a b) ys" "mset ys = mset xs"
  shows "ys = (case t of min_heap \<Rightarrow> sort xs | max_heap \<Rightarrow> rev (sort xs))"
proof (cases t)
  case min_heap
  with assms(1) have "sorted ys"
    by (simp add: Compare_def not_less)
  with assms(2) min_heap show ?thesis
    by (simp add: properties_for_sort)
next
  case max_heap
  with assms(1) have "sorted_wrt (\<lambda>a b. b \<le> a) ys"
    by (simp add: Compare_def not_less)
  then have "sorted (rev ys)"
    by (simp add: sorted_wrt_rev)
  with assms(2) have "sort xs = rev ys"
    by (intro properties_for_sort) simp_all
  with max_heap show ?thesis by simp
qed

text \<open>
  C3. For every input vector and every heap built from it (either strategy, every
  admitted arity), \<^verbatim>\<open>top()\<close> then \<^verbatim>\<open>pop()\<close> until the heap is empty returns the
  input in sorted order: ascending for a min heap, descending for a max heap.
\<close>

theorem full_extraction_sorted:
  assumes "valid_class cls"
  shows "pop_order t cls (Heap_make t cls False xs)
    = Inr (case t of min_heap \<Rightarrow> sort xs | max_heap \<Rightarrow> rev (sort xs))"
proof -
  from Heap_make_build [OF assms, of t xs]
  obtain h where h: "Heap_make t cls False xs = Inr h" "mset (nodes h) = mset xs"
    "heap_property t cls (nodes h)"
    by blast
  from extract_all_sorted [OF assms h(3)]
  obtain ys where ys: "extract_all t cls h = Inr ys" "mset ys = mset (nodes h)"
    "sorted_wrt (\<lambda>a b. \<not> Compare t a b) ys"
    by blast
  from sorted_wrt_Compare_sort [OF ys(3), of xs] ys(2) h(2)
  have "ys = (case t of min_heap \<Rightarrow> sort xs | max_heap \<Rightarrow> rev (sort xs))" by simp
  with h(1) ys(1) show ?thesis by (simp add: pop_order_def)
qed

theorem full_extraction_sorted_witness:
  "valid_class BinaryHeap \<and>
   pop_order max_heap BinaryHeap (make_max_heap False [30, 1, 50, 20, 40, 60, 100 :: nat])
     = Inr [100, 60, 50, 40, 30, 20, 1]"
proof -
  have v: "valid_class BinaryHeap" by (simp add: valid_class_def)
  have s: "rev (sort [30, 1, 50, 20, 40, 60, 100 :: nat]) = [100, 60, 50, 40, 30, 20, 1]"
    by code_simp
  from full_extraction_sorted [OF v, of max_heap "[30, 1, 50, 20, 40, 60, 100 :: nat]"] s v
  show ?thesis by (simp add: Heap_make_def make_max_heap_def)
qed

section \<open>Empty heaps\<close>

text \<open>
  C6, as the code has it. A freshly constructed empty heap is the empty vector. On
  it \<^verbatim>\<open>top()\<close> fails with the range error of \<^verbatim>\<open>at(0)\<close>. \<^verbatim>\<open>pop()\<close> does not
  fail in that way: it calls \<^verbatim>\<open>back()\<close> on the empty vector before it reaches the
  checked \<^verbatim>\<open>at(0)\<close>, so what the caller meets is undefined behaviour and not a
  signalled error. On any heap, each of \<^verbatim>\<open>top()\<close> and \<^verbatim>\<open>pop()\<close> fails exactly when
  the heap is empty.
\<close>

theorem top_pop_fail_iff_empty:
  assumes "valid_class cls"
  shows "Heap_make t cls IsHeap ([] :: ('a::linorder) list) = Inr \<lparr>nodes = []\<rparr> \<and>
    Heap_top \<lparr>nodes = [] :: ('a::linorder) list\<rparr> = Inl out_of_range \<and>
    Heap_pop Heap_swap_nodes t cls \<lparr>nodes = [] :: 'a list\<rparr> = Inl undefined_behaviour \<and>
    ((\<exists>e. Heap_top (h :: 'a Heap) = Inl e) \<longleftrightarrow> Heap_empty h) \<and>
    ((\<exists>e. Heap_pop Heap_swap_nodes t cls h = Inl e) \<longleftrightarrow> Heap_empty h)"
proof -
  have "heap_property t cls ([] :: 'a list)" by (simp add: heap_property_def)
  then have "build_heap Heap_swap_nodes t cls \<lparr>nodes = [] :: 'a list\<rparr> = Inr \<lparr>nodes = []\<rparr>"
    using build_heap_id [where h = "\<lparr>nodes = []\<rparr>"] valid_class_arity [OF assms] by simp
  then have mk: "Heap_make t cls IsHeap ([] :: 'a list) = Inr \<lparr>nodes = []\<rparr>"
    by (simp add: Heap_make_eq [OF assms] heapify_def)
  have top: "(\<exists>e. Heap_top h = Inl e) \<longleftrightarrow> Heap_empty h"
    by (cases "nodes h") (simp_all add: Heap_top_def Heap_empty_def Heap_size_def)
  have pop: "(\<exists>e. Heap_pop Heap_swap_nodes t cls h = Inl e) \<longleftrightarrow> Heap_empty h"
  proof (cases "nodes h = []")
    case True
    then show ?thesis by (simp add: Heap_pop_def Heap_empty_def Heap_size_def)
  next
    case False
    let ?h1 = "h\<lparr>nodes := butlast ((nodes h)[0 := last (nodes h)])\<rparr>"
    from heapify_down_ok [OF Heap_swap_nodes_ok, where h = ?h1 and t = t and cls = cls and i = 0]
    obtain h' where "heapify_down Heap_swap_nodes t cls 0 ?h1 = Inr h'" by auto
    with False show ?thesis by (simp add: Heap_pop_def Let_def Heap_empty_def Heap_size_def)
  qed
  show ?thesis
    using mk top pop by (simp add: Heap_top_def Heap_pop_def)
qed

theorem top_pop_fail_iff_empty_witness:
  "valid_class (KHeap 4) \<and>
   Heap_make max_heap (KHeap 4) False ([] :: nat list) = Inr \<lparr>nodes = []\<rparr> \<and>
   Heap_top \<lparr>nodes = [] :: nat list\<rparr> = Inl out_of_range \<and>
   Heap_pop Heap_swap_nodes max_heap (KHeap 4) \<lparr>nodes = [] :: nat list\<rparr>
     = Inl undefined_behaviour \<and>
   \<not> Heap_empty \<lparr>nodes = [7 :: nat]\<rparr> \<and>
   \<not> (\<exists>e. Heap_top \<lparr>nodes = [7 :: nat]\<rparr> = Inl e) \<and>
   \<not> (\<exists>e. Heap_pop Heap_swap_nodes max_heap (KHeap 4) \<lparr>nodes = [7 :: nat]\<rparr> = Inl e)"
proof -
  have v: "valid_class (KHeap 4)" by (simp add: valid_class_def)
  have ne: "\<not> Heap_empty \<lparr>nodes = [7 :: nat]\<rparr>" by (simp add: Heap_empty_def Heap_size_def)
  from top_pop_fail_iff_empty [OF v, of max_heap False "\<lparr>nodes = [7 :: nat]\<rparr>"] v ne
  show ?thesis by simp
qed

section \<open>Assume-heap mode\<close>

text \<open>
  C9. On an input that already satisfies the heap property, the heap constructed in
  assume-heap mode and the heap constructed in build mode are the same heap, so their
  full pop orders are the same (and the extraction returns).
\<close>

theorem assume_heap_same_pop_order:
  assumes "valid_class cls" "heap_property t cls xs"
  shows "Heap_make t cls True xs = Heap_make t cls False xs \<and>
    pop_order t cls (Heap_make t cls True xs) = pop_order t cls (Heap_make t cls False xs) \<and>
    (\<exists>ys. pop_order t cls (Heap_make t cls True xs) = Inr ys)"
proof -
  note K = valid_class_arity [OF assms(1)]
  have "build_heap Heap_swap_nodes t cls \<lparr>nodes = xs\<rparr> = Inr \<lparr>nodes = xs\<rparr>"
    using build_heap_id [where h = "\<lparr>nodes = xs\<rparr>" and t = t and cls = cls] assms(2) K by simp
  then have eq: "Heap_make t cls IsHeap xs = Inr \<lparr>nodes = xs\<rparr>" for IsHeap
    by (simp add: Heap_make_eq [OF assms(1)] heapify_def)
  from extract_all_sorted [OF assms(1), where h = "\<lparr>nodes = xs\<rparr>" and t = t] assms(2)
  obtain ys where "extract_all t cls \<lparr>nodes = xs\<rparr> = Inr ys" by auto
  then show ?thesis by (simp add: eq pop_order_def)
qed

theorem assume_heap_same_pop_order_witness:
  "valid_class (KHeap 4) \<and>
   heap_property min_heap (KHeap 4) [0, 1, 2, 3, 4, 5, 6, 7, 8 :: nat] \<and>
   Heap_make min_heap (KHeap 4) True [0, 1, 2, 3, 4, 5, 6, 7, 8 :: nat]
     = Heap_make min_heap (KHeap 4) False [0, 1, 2, 3, 4, 5, 6, 7, 8] \<and>
   pop_order min_heap (KHeap 4) (Heap_make min_heap (KHeap 4) True [0, 1, 2, 3, 4, 5, 6, 7, 8 :: nat])
     = pop_order min_heap (KHeap 4) (Heap_make min_heap (KHeap 4) False [0, 1, 2, 3, 4, 5, 6, 7, 8])"
proof -
  have v: "valid_class (KHeap 4)" by (simp add: valid_class_def)
  have hp: "heap_property min_heap (KHeap 4) [0, 1, 2, 3, 4, 5, 6, 7, 8 :: nat]"
    by code_simp
  from assume_heap_same_pop_order [OF v hp] v hp show ?thesis by simp
qed

section \<open>Arity two\<close>

lemma heapify_up_KHeap_2:
  "heapify_up sw t BinaryHeap i h = heapify_up sw t (KHeap 2) i h"
proof (induction sw t BinaryHeap i h rule: heapify_up.induct)
  case (1 sw t i h)
  have p: "parent (KHeap 2) i = parent BinaryHeap i" by simp
  show ?case
    apply (subst heapify_up.simps [of sw t BinaryHeap i h])
    apply (subst heapify_up.simps [of sw t "KHeap 2" i h])
    unfolding p using "1.hyps" by (auto simp: Let_def split: sum.splits)
qed

lemma Heap_ops_KHeap_2:
  "heapify Heap_swap_nodes t (KHeap 2) IsHeap h = heapify Heap_swap_nodes t BinaryHeap IsHeap h"
  "Heap_push Heap_swap_nodes t (KHeap 2) x h = Heap_push Heap_swap_nodes t BinaryHeap x h"
  "Heap_pop Heap_swap_nodes t (KHeap 2) h = Heap_pop Heap_swap_nodes t BinaryHeap h"
proof -
  show "heapify Heap_swap_nodes t (KHeap 2) IsHeap h = heapify Heap_swap_nodes t BinaryHeap IsHeap h"
    using build_heap_KHeap_2 [OF Heap_swap_nodes_ok, where h = h and t = t]
    by (simp add: heapify_def)
  show "Heap_push Heap_swap_nodes t (KHeap 2) x h = Heap_push Heap_swap_nodes t BinaryHeap x h"
    by (simp add: Heap_push_def heapify_up_KHeap_2)
  show "Heap_pop Heap_swap_nodes t (KHeap 2) h = Heap_pop Heap_swap_nodes t BinaryHeap h"
    using heapify_down_KHeap_2 [OF Heap_swap_nodes_ok, where t = t and i = 0
        and h = "h\<lparr>nodes := butlast ((nodes h)[0 := last (nodes h)])\<rparr>"]
    by (simp add: Heap_pop_def Let_def)
qed

lemma extract_all_KHeap_2: "extract_all t (KHeap 2) h = extract_all t BinaryHeap h"
proof (induction t "KHeap 2" h rule: extract_all.induct)
  case (1 t h)
  have pop: "Heap_pop Heap_swap_nodes t BinaryHeap h = Heap_pop Heap_swap_nodes t (KHeap 2) h"
    by (simp add: Heap_ops_KHeap_2)
  show ?case
    apply (subst extract_all.simps [of t "KHeap 2" h])
    apply (subst extract_all.simps [of t BinaryHeap h])
    unfolding pop using "1.hyps" by (auto split: sum.splits)
qed

lemma heap_property_KHeap_2: "heap_property t (KHeap 2) xs = heap_property t BinaryHeap xs"
  by (simp add: heap_property_iff)

text \<open>
  C5, as the code has it. A k-ary heap cannot be instantiated with \<open>K = 2\<close>: the
  factory refuses it. The k-ary procedures themselves, run at arity two, are the binary
  ones: on every heap object they return the same result for construction
  (\<^verbatim>\<open>heapify\<close>), push, pop and the full extraction, and the heap property at arity
  two is the binary heap property.
\<close>

theorem KHeap_2_is_BinaryHeap:
  "make_k_heap t 2 IsHeap xs = Inl arity_rejected \<and>
   heapify Heap_swap_nodes t (KHeap 2) IsHeap h = heapify Heap_swap_nodes t BinaryHeap IsHeap h \<and>
   Heap_push Heap_swap_nodes t (KHeap 2) x h = Heap_push Heap_swap_nodes t BinaryHeap x h \<and>
   Heap_pop Heap_swap_nodes t (KHeap 2) h = Heap_pop Heap_swap_nodes t BinaryHeap h \<and>
   extract_all t (KHeap 2) h = extract_all t BinaryHeap h \<and>
   heap_property t (KHeap 2) xs = heap_property t BinaryHeap xs"
  by (simp add: make_k_heap_def Heap_ops_KHeap_2 extract_all_KHeap_2 heap_property_KHeap_2)

theorem KHeap_2_is_BinaryHeap_witness:
  "make_k_heap max_heap 2 False [3, 1, 2 :: nat] = Inl arity_rejected \<and>
   heapify Heap_swap_nodes max_heap (KHeap 2) False \<lparr>nodes = [3, 1, 2 :: nat]\<rparr>
     = heapify Heap_swap_nodes max_heap BinaryHeap False \<lparr>nodes = [3, 1, 2]\<rparr> \<and>
   Heap_push Heap_swap_nodes max_heap (KHeap 2) 5 \<lparr>nodes = [3, 1, 2 :: nat]\<rparr>
     = Heap_push Heap_swap_nodes max_heap BinaryHeap 5 \<lparr>nodes = [3, 1, 2]\<rparr> \<and>
   Heap_pop Heap_swap_nodes max_heap (KHeap 2) \<lparr>nodes = [3, 1, 2 :: nat]\<rparr>
     = Heap_pop Heap_swap_nodes max_heap BinaryHeap \<lparr>nodes = [3, 1, 2]\<rparr> \<and>
   extract_all max_heap (KHeap 2) \<lparr>nodes = [3, 1, 2 :: nat]\<rparr>
     = extract_all max_heap BinaryHeap \<lparr>nodes = [3, 1, 2]\<rparr> \<and>
   heap_property max_heap (KHeap 2) [3, 1, 2 :: nat]
     = heap_property max_heap BinaryHeap [3, 1, 2 :: nat]"
  by (rule KHeap_2_is_BinaryHeap)

theorem KHeap_2_counterexample:
  "pop_order max_heap (KHeap 2) (make_k_heap max_heap 2 False [3, 1, 2 :: nat])
     = Inl arity_rejected \<and>
   pop_order max_heap BinaryHeap (make_heap max_heap False [3, 1, 2 :: nat]) = Inr [3, 2, 1]"
  by code_simp

section \<open>The indexed priority queue: consistency of the maps\<close>

text \<open>
  \<open>pq_inv\<close>: the values are unique, the index map sends every value in the sequence
  to its slot, and both maps have exactly the values of the sequence as their keys.
\<close>

definition pq_inv :: "('a, 'k, 'm) PriorityQueue_scheme \<Rightarrow> bool" where
  "pq_inv q \<longleftrightarrow>
     distinct (nodes q) \<and>
     (\<forall>i \<in> set [0..<length (nodes q)]. index_map q (nodes q ! i) = Some i) \<and>
     dom (index_map q) = set (nodes q) \<and>
     dom (key_map q) = set (nodes q)"

lemma pq_inv_index: "pq_inv q \<Longrightarrow> i < length (nodes q) \<Longrightarrow> index_map q (nodes q ! i) = Some i"
  by (simp add: pq_inv_def)

lemma pq_inv_subscript:
  "pq_inv q \<Longrightarrow> i < length (nodes q) \<Longrightarrow> subscript (index_map q) (nodes q ! i) = i"
  by (simp add: pq_inv_index subscript_def)

lemma PQ_swap_nodes_eq:
  assumes "pq_inv q" "i < length (nodes q)" "j < length (nodes q)"
  shows "PQ_swap_nodes i j q =
    Inr (q\<lparr>index_map := (index_map q)(nodes q ! i \<mapsto> j, nodes q ! j \<mapsto> i),
           nodes := (nodes q)[i := nodes q ! j, j := nodes q ! i]\<rparr>)"
  using assms
  by (simp add: PQ_swap_nodes_def Heap_swap_nodes_def Let_def pq_inv_subscript)

lemma pq_inv_swap:
  assumes "pq_inv q" "i < length (nodes q)" "j < length (nodes q)"
  shows "pq_inv (q\<lparr>index_map := (index_map q)(nodes q ! i \<mapsto> j, nodes q ! j \<mapsto> i),
           nodes := (nodes q)[i := nodes q ! j, j := nodes q ! i]\<rparr>)"
proof -
  let ?xs = "nodes q"
  let ?ys = "?xs[i := ?xs ! j, j := ?xs ! i]"
  let ?m = "(index_map q)(?xs ! i \<mapsto> j, ?xs ! j \<mapsto> i)"
  from assms(1) have d: "distinct ?xs" and ix: "\<And>l. l < length ?xs \<Longrightarrow> index_map q (?xs ! l) = Some l"
    and dm: "dom (index_map q) = set ?xs" and dk: "dom (key_map q) = set ?xs"
    by (simp_all add: pq_inv_def)
  have "distinct ?ys" using d assms(2,3) by (simp add: distinct_swap)
  moreover have s: "set ?ys = set ?xs" using assms(2,3) by (simp add: set_swap)
  moreover have "?m (?ys ! l) = Some l" if "l < length ?ys" for l
  proof -
    from that have l: "l < length ?xs" by simp
    consider "l = j" | "l \<noteq> j" "l = i" | "l \<noteq> j" "l \<noteq> i" by blast
    then show ?thesis
    proof cases
      case 1
      then have "?ys ! l = ?xs ! i" using assms(3) by simp
      moreover have "?xs ! i = ?xs ! j \<longleftrightarrow> i = j"
        using d assms(2,3) by (simp add: nth_eq_iff_index_eq)
      ultimately show ?thesis using 1 by auto
    next
      case 2
      then have "?ys ! l = ?xs ! j" using assms(2) by simp
      with 2 show ?thesis by simp
    next
      case 3
      then have "?ys ! l = ?xs ! l" by simp
      moreover have "?xs ! l \<noteq> ?xs ! i" "?xs ! l \<noteq> ?xs ! j"
        using d l assms(2,3) 3 by (simp_all add: nth_eq_iff_index_eq)
      ultimately show ?thesis using ix [OF l] by simp
    qed
  qed
  moreover have "dom ?m = set ?xs" using dm assms(2,3) by auto
  ultimately show ?thesis using dk by (simp add: pq_inv_def)
qed

lemma PQ_swap_nodes_ok: "seam_ok PQ_swap_nodes (\<lambda>q. pq_inv q \<and> key_map q = km)"
  unfolding seam_ok_def
proof (intro allI impI)
  fix i j and q :: "('a, 'b, 'c) PriorityQueue_scheme"
  assume a: "(pq_inv q \<and> key_map q = km) \<and> i < length (nodes q) \<and> j < length (nodes q)"
  then show "\<exists>h'. PQ_swap_nodes i j q = Inr h' \<and> (pq_inv h' \<and> key_map h' = km) \<and>
      nodes h' = (nodes q)[i := nodes q ! j, j := nodes q ! i]"
    using PQ_swap_nodes_eq [of q i j] pq_inv_swap [of q i j] by simp
qed

lemma PQ_push_fresh:
  assumes "pq_inv q" "v \<notin> set (nodes q)"
  shows "\<exists>q'. PQ_push t cls k v q = Inr q' \<and> pq_inv q' \<and> key_map q' = (key_map q)(v \<mapsto> k) \<and>
           mset (nodes q') = add_mset v (mset (nodes q))"
proof -
  let ?n = "length (nodes q)"
  let ?q1 = "q\<lparr>index_map := (index_map q)(v \<mapsto> ?n), key_map := (key_map q)(v \<mapsto> k),
                nodes := nodes q @ [v]\<rparr>"
  from assms(1) have d: "distinct (nodes q)"
    and ix: "\<And>l. l < ?n \<Longrightarrow> index_map q (nodes q ! l) = Some l"
    and dm: "dom (index_map q) = set (nodes q)" and dk: "dom (key_map q) = set (nodes q)"
    by (simp_all add: pq_inv_def)
  have "index_map ?q1 (nodes ?q1 ! l) = Some l" if "l < length (nodes ?q1)" for l
  proof (cases "l = ?n")
    case True
    then show ?thesis by simp
  next
    case False
    with that have l: "l < ?n" by simp
    then have "nodes q ! l \<noteq> v" using assms(2) by (metis nth_mem)
    with l ix [OF l] show ?thesis by (simp add: nth_append)
  qed
  then have inv1: "pq_inv ?q1"
    using d assms(2) dm dk by (simp add: pq_inv_def)
  from heapify_up_ok [OF PQ_swap_nodes_ok [where km = "(key_map q)(v \<mapsto> k)"], where h = ?q1
        and i = ?n and t = t and cls = cls] inv1
  obtain q' where "heapify_up PQ_swap_nodes t cls ?n ?q1 = Inr q'" "pq_inv q'"
    "key_map q' = (key_map q)(v \<mapsto> k)" "mset (nodes q') = mset (nodes ?q1)"
    by auto
  then show ?thesis
    by (simp add: PQ_push_def Heap_push_def Heap_size_def Let_def)
qed

lemma PQ_pop_nonempty:
  assumes "pq_inv q" "nodes q \<noteq> []"
  shows "\<exists>q'. PQ_pop t cls q = Inr q' \<and> pq_inv q' \<and>
           key_map q' = (key_map q)(nodes q ! 0 := None) \<and>
           mset (nodes q') = mset (nodes q) - {#nodes q ! 0#}"
proof -
  let ?xs = "nodes q"
  let ?x = "?xs ! 0"
  let ?ys = "butlast (?xs[0 := last ?xs])"
  let ?km = "(key_map q)(?x := None)"
  let ?q2 = "q\<lparr>index_map := (index_map q)(?x := None), key_map := ?km, nodes := ?ys\<rparr>"
  from assms(1) have d: "distinct ?xs"
    and ix: "\<And>l. l < length ?xs \<Longrightarrow> index_map q (?xs ! l) = Some l"
    and dm: "dom (index_map q) = set ?xs" and dk: "dom (key_map q) = set ?xs"
    by (simp_all add: pq_inv_def)
  obtain x xs' where xs: "?xs = x # xs'" using assms(2) by (cases ?xs) auto
  then have x: "?x = x" by simp
  have ms: "mset ?ys = mset ?xs - {#?x#}" and st: "set ?ys = set ?xs - {?x}"
    and dy: "distinct ?ys"
  proof -
    show "mset ?ys = mset ?xs - {#?x#}"
    proof (cases "xs' = []")
      case True
      with xs show ?thesis by simp
    next
      case False
      then have "mset (butlast (last xs' # xs')) = mset xs'"
        by (metis append_butlast_last_id butlast.simps(2) mset.simps(2) mset_append
            union_mset_add_mset_right add.right_neutral mset_zero_iff_right union_commute)
      with xs False show ?thesis by simp
    qed
    then have "mset ?ys = mset xs'" using xs by simp
    then have "set ?ys = set xs'" "distinct ?ys = distinct xs'"
      by (metis mset_eq_setD, metis mset_eq_imp_distinct_iff)
    with d xs show "set ?ys = set ?xs - {?x}" "distinct ?ys" by auto
  qed
  show ?thesis
  proof (cases "?ys = []")
    case True
    have "pq_inv ?q2" using True dm dk st by (auto simp: pq_inv_def)
    with True ms assms(2) show ?thesis
      by (simp add: PQ_pop_def Heap_size_def Let_def)
  next
    case False
    let ?f = "hd ?ys"
    let ?q3 = "?q2\<lparr>index_map := (index_map ?q2)(?f \<mapsto> 0)\<rparr>"
    from False have n2: "2 \<le> length ?xs" by (cases xs') (simp_all add: xs)
    have f: "?f = last ?xs" using n2 xs by (cases xs') (simp_all add: hd_conv_nth)
    have fl: "?f = ?xs ! (length ?xs - 1)" using f assms(2) by (simp add: last_conv_nth)
    have fx: "?f \<noteq> ?x"
      using nth_eq_iff_index_eq [OF d, of "length ?xs - 1" 0] n2 fl assms(2) by simp
    have nth: "?ys ! l = ?xs ! l" if "0 < l" "l < length ?ys" for l
      using that by (simp add: nth_butlast)
    have "index_map ?q3 (nodes ?q3 ! l) = Some l" if l: "l < length (nodes ?q3)" for l
    proof (cases "l = 0")
      case True
      with False show ?thesis by (simp add: hd_conv_nth)
    next
      case l0: False
      with l have yl: "?ys ! l = ?xs ! l" and ll: "l < length ?xs - 1" by (simp_all add: nth_butlast)
      have l1: "l < length ?xs" "length ?xs - 1 < length ?xs" "0 < length ?xs" "l \<noteq> length ?xs - 1"
        using ll assms(2) by simp_all
      have "?xs ! l \<noteq> ?x" "?xs ! l \<noteq> ?f"
        using nth_eq_iff_index_eq [OF d l1(1) l1(3)]
          nth_eq_iff_index_eq [OF d l1(1) l1(2)] l0 l1(4) fl by simp_all
      with yl ix [of l] ll show ?thesis by simp
    qed
    moreover have "?f \<in> set ?ys" using False by simp
    then have "dom (index_map ?q3) = set ?ys" "dom (key_map ?q3) = set ?ys"
      using dm dk st by auto
    ultimately have inv3: "pq_inv ?q3" using dy by (simp add: pq_inv_def)
    from heapify_down_ok [OF PQ_swap_nodes_ok [where km = ?km], where h = ?q3
        and i = 0 and t = t and cls = cls] inv3
    obtain q' where "heapify_down PQ_swap_nodes t cls 0 ?q3 = Inr q'" "pq_inv q'"
      "key_map q' = ?km" "mset (nodes q') = mset (nodes ?q3)"
      by auto
    with False ms assms(2) show ?thesis
      by (simp add: PQ_pop_def Heap_size_def Let_def)
  qed
qed

lemma PQ_update_key_present:
  assumes "pq_inv q" "v \<in> set (nodes q)"
  shows "\<exists>q'. PQ_update_key t cls k v q = Inr q' \<and> pq_inv q' \<and>
           key_map q' = (key_map q)(v \<mapsto> k) \<and> mset (nodes q') = mset (nodes q)"
proof -
  from assms(2) obtain i where i: "i < length (nodes q)" "nodes q ! i = v"
    by (auto simp: in_set_conv_nth)
  with assms(1) have im: "index_map q v = Some i" using pq_inv_index by blast
  then have s: "subscript (index_map q) v = i" by (simp add: subscript_def)
  let ?km = "(key_map q)(v \<mapsto> k)"
  let ?q1 = "q\<lparr>index_map := (index_map q)(v \<mapsto> i), key_map := ?km\<rparr>"
  have "(index_map q)(v \<mapsto> i) = index_map q" using im by (rule map_upd_triv)
  moreover have "dom ?km = set (nodes q)" using assms by (auto simp: pq_inv_def)
  ultimately have inv1: "pq_inv ?q1" using assms(1) by (simp add: pq_inv_def)
  have "\<exists>q'. heapify_up PQ_swap_nodes t cls i ?q1 = Inr q' \<and> pq_inv q' \<and> key_map q' = ?km \<and>
      mset (nodes q') = mset (nodes ?q1)"
    using heapify_up_ok [OF PQ_swap_nodes_ok [where km = ?km], where h = ?q1
        and i = i and t = t and cls = cls] inv1 i by auto
  moreover have "\<exists>q'. heapify_down PQ_swap_nodes t cls i ?q1 = Inr q' \<and> pq_inv q' \<and> key_map q' = ?km \<and>
      mset (nodes q') = mset (nodes ?q1)"
    using heapify_down_ok [OF PQ_swap_nodes_ok [where km = ?km], where h = ?q1
        and i = i and t = t and cls = cls] inv1 by auto
  ultimately show ?thesis
    by (cases t) (simp_all add: PQ_update_key_def Let_def s)
qed

section \<open>Construction and operation sequences of the priority queue\<close>

definition PQ_make ::
  "heap_type \<Rightarrow> heap_class \<Rightarrow> bool \<Rightarrow> 'k list \<Rightarrow> ('a::linorder) list
   \<Rightarrow> error + ('a, 'k) PriorityQueue" where
  "PQ_make t cls IsHeap keys vals =
     (case cls of
        BinaryHeap \<Rightarrow> make_priority_queue t IsHeap keys vals
      | KHeap K \<Rightarrow> make_k_priority_queue t K IsHeap keys vals)"

datatype ('k, 'a) pq_op = PQ_Push 'k 'a | PQ_Pop | PQ_Update_key 'k 'a

fun PQ_step ::
  "heap_type \<Rightarrow> heap_class \<Rightarrow> ('k, 'a::linorder) pq_op \<Rightarrow> ('a, 'k, 'm) PriorityQueue_scheme
   \<Rightarrow> error + ('a, 'k, 'm) PriorityQueue_scheme" where
  "PQ_step t cls (PQ_Push k v) q = PQ_push t cls k v q"
| "PQ_step t cls PQ_Pop q = PQ_pop t cls q"
| "PQ_step t cls (PQ_Update_key k v) q = PQ_update_key t cls k v q"

fun PQ_run ::
  "heap_type \<Rightarrow> heap_class \<Rightarrow> ('k, 'a::linorder) pq_op list \<Rightarrow> ('a, 'k, 'm) PriorityQueue_scheme
   \<Rightarrow> error + ('a, 'k, 'm) PriorityQueue_scheme" where
  "PQ_run t cls [] q = Inr q"
| "PQ_run t cls (op # ops) q =
     (case PQ_step t cls op q of Inl e \<Rightarrow> Inl e | Inr q' \<Rightarrow> PQ_run t cls ops q')"

text \<open>
  The preconditions the operations document: a pushed value is not in the queue yet, a
  pop finds the queue non-empty, an updated value is in the queue. \<open>PQ_ops_ok\<close> says
  that every operation of a sequence meets its precondition in the state it runs in.
\<close>

fun PQ_pre :: "('k, 'a) pq_op \<Rightarrow> ('a, 'k, 'm) PriorityQueue_scheme \<Rightarrow> bool" where
  "PQ_pre (PQ_Push k v) q = (v \<notin> set (nodes q))"
| "PQ_pre PQ_Pop q = (nodes q \<noteq> [])"
| "PQ_pre (PQ_Update_key k v) q = (v \<in> set (nodes q))"

fun PQ_ops_ok ::
  "heap_type \<Rightarrow> heap_class \<Rightarrow> ('k, 'a::linorder) pq_op list \<Rightarrow> ('a, 'k, 'm) PriorityQueue_scheme
   \<Rightarrow> bool" where
  "PQ_ops_ok t cls [] q = True"
| "PQ_ops_ok t cls (op # ops) q =
     (PQ_pre op q \<and>
      (case PQ_step t cls op q of Inl e \<Rightarrow> False | Inr q' \<Rightarrow> PQ_ops_ok t cls ops q'))"

text \<open>
  The key most recently assigned to each value, by the construction (the initial map)
  or by a later push or update\_key.
\<close>

fun latest_key :: "('a \<rightharpoonup> 'k) \<Rightarrow> ('k, 'a) pq_op list \<Rightarrow> ('a \<rightharpoonup> 'k)" where
  "latest_key m [] = m"
| "latest_key m (PQ_Push k v # ops) = latest_key (m(v \<mapsto> k)) ops"
| "latest_key m (PQ_Pop # ops) = latest_key m ops"
| "latest_key m (PQ_Update_key k v # ops) = latest_key (m(v \<mapsto> k)) ops"

fun assigned :: "('k, 'a) pq_op list \<Rightarrow> 'a set" where
  "assigned [] = {}"
| "assigned (PQ_Push k v # ops) = insert v (assigned ops)"
| "assigned (PQ_Pop # ops) = assigned ops"
| "assigned (PQ_Update_key k v # ops) = insert v (assigned ops)"

lemma latest_key_cong:
  "(v \<notin> assigned ops \<Longrightarrow> m v = m' v) \<Longrightarrow> latest_key m ops v = latest_key m' ops v"
proof (induction ops arbitrary: m m')
  case Nil
  then show ?case by simp
next
  case (Cons op ops)
  have upd: "latest_key (m(w \<mapsto> k)) ops v = latest_key (m'(w \<mapsto> k)) ops v"
    if "op = PQ_Push k w \<or> op = PQ_Update_key k w" for k w
  proof (rule Cons.IH)
    assume "v \<notin> assigned ops"
    with Cons.prems that show "(m(w \<mapsto> k)) v = (m'(w \<mapsto> k)) v"
      by (cases "v = w") auto
  qed
  show ?case
  proof (cases op)
    case (PQ_Push k w)
    with upd [of k w] show ?thesis by simp
  next
    case PQ_Pop
    with Cons.IH [of m m'] Cons.prems show ?thesis by simp
  next
    case (PQ_Update_key k w)
    with upd [of k w] show ?thesis by simp
  qed
qed

lemma fold_key_map:
  assumes "length ks = length ns" "distinct ns"
  shows "fold (\<lambda>(key, node) m. m(node \<mapsto> key)) (zip ks ns) m = m ++ map_of (zip ns ks)"
  using assms
proof (induction ks ns arbitrary: m rule: list_induct2)
  case Nil
  then show ?case by simp
next
  case (Cons k ks n ns)
  then have "map_of (zip ns ks) n = None"
    by (auto simp: map_of_eq_None_iff dest: set_zip_leftD)
  with Cons show ?case
    by (auto simp: fun_eq_iff map_add_def split: option.splits dest: set_zip_leftD)
qed

lemma fold_index_map:
  assumes "length ns = length js" "distinct ns"
  shows "fold (\<lambda>(node, index) m. m(node \<mapsto> index)) (zip ns js) m = m ++ map_of (zip ns js)"
  using assms
proof (induction ns js arbitrary: m rule: list_induct2)
  case Nil
  then show ?case by simp
next
  case (Cons n ns j js)
  then have "map_of (zip ns js) n = None"
    by (auto simp: map_of_eq_None_iff dest: set_zip_leftD)
  with Cons show ?case
    by (auto simp: fun_eq_iff map_add_def split: option.splits dest: set_zip_leftD)
qed

lemma PQ_make_inv:
  assumes "valid_class cls" "distinct vals" "length keys = length vals"
  shows "\<exists>q0. PQ_make t cls IsHeap keys vals = Inr q0 \<and> pq_inv q0 \<and>
           key_map q0 = map_of (zip vals keys) \<and> mset (nodes q0) = mset vals"
proof -
  let ?km = "map_of (zip vals keys)"
  let ?q = "\<lparr>nodes = vals, key_map = ?km, index_map = map_of (zip vals [0..<length vals])\<rparr>"
  have km: "build_key_map keys vals = Inr ?km"
    using assms(2,3) by (simp add: build_key_map_def fold_key_map)
  have im: "build_index_map vals = map_of (zip vals [0..<length vals])"
    using assms(2) by (simp add: build_index_map_def fold_index_map)
  have "map_of (zip vals [0..<length vals]) (vals ! i) = Some i" if "i < length vals" for i
    using map_of_zip_nth [of vals "[0..<length vals]" i] assms(2) that by simp
  then have inv: "pq_inv ?q"
    using assms(2,3) by (simp add: pq_inv_def)
  from heapify_ok [OF PQ_swap_nodes_ok [where km = ?km], where h = ?q and t = t and cls = cls
      and IsHeap = IsHeap] inv
  obtain q0 where "heapify PQ_swap_nodes t cls IsHeap ?q = Inr q0" "pq_inv q0"
    "key_map q0 = ?km" "mset (nodes q0) = mset vals"
    by auto
  with km im assms(1) show ?thesis
    by (cases cls) (simp_all add: PQ_make_def make_priority_queue_def make_k_priority_queue_def
        PriorityQueue_init_def valid_class_def)
qed

lemma PQ_step_ok:
  assumes "pq_inv q" "PQ_pre op q"
  shows "\<exists>q'. PQ_step t cls op q = Inr q' \<and> pq_inv q' \<and>
           set (nodes q') \<subseteq> set (nodes q) \<union> assigned [op] \<and>
           (\<forall>v \<in> set (nodes q'). key_map q' v = latest_key (key_map q) [op] v)"
proof (cases op)
  case (PQ_Push k v)
  with assms PQ_push_fresh [of q v t cls k]
  obtain q' where q': "PQ_push t cls k v q = Inr q'" "pq_inv q'"
    "key_map q' = (key_map q)(v \<mapsto> k)" "mset (nodes q') = add_mset v (mset (nodes q))"
    by auto
  have "set (nodes q') = insert v (set (nodes q))"
    using mset_eq_setD [of "nodes q'" "v # nodes q"] q'(4) by simp
  with q' PQ_Push show ?thesis by auto
next
  case PQ_Pop
  with assms PQ_pop_nonempty [of q t cls]
  obtain q' where q': "PQ_pop t cls q = Inr q'" "pq_inv q'"
    "key_map q' = (key_map q)(nodes q ! 0 := None)"
    "mset (nodes q') = mset (nodes q) - {#nodes q ! 0#}"
    by auto
  have sub: "set (nodes q') \<subseteq> set (nodes q)"
    using q'(4) by (metis in_diffD mset_eq_setD set_mset_mset subsetI)
  have "nodes q ! 0 \<notin> set (nodes q')"
  proof -
    from assms have "distinct (nodes q)" "nodes q \<noteq> []" using PQ_Pop by (simp_all add: pq_inv_def)
    then have "count (mset (nodes q)) (nodes q ! 0) = 1"
      by (simp add: distinct_count_atmost_1)
    then have "count (mset (nodes q')) (nodes q ! 0) = 0" using q'(4) by simp
    then show ?thesis by (simp add: count_eq_zero_iff)
  qed
  with q' sub PQ_Pop show ?thesis by auto
next
  case (PQ_Update_key k v)
  with assms PQ_update_key_present [of q v t cls k]
  obtain q' where q': "PQ_update_key t cls k v q = Inr q'" "pq_inv q'"
    "key_map q' = (key_map q)(v \<mapsto> k)" "mset (nodes q') = mset (nodes q)"
    by auto
  have "set (nodes q') = set (nodes q)"
    using mset_eq_setD [of "nodes q'" "nodes q"] q'(4) by simp
  with q' PQ_Update_key show ?thesis by auto
qed

lemma PQ_run_ok:
  "pq_inv q \<Longrightarrow> PQ_ops_ok t cls ops q \<Longrightarrow>
     \<exists>q'. PQ_run t cls ops q = Inr q' \<and> pq_inv q' \<and>
       set (nodes q') \<subseteq> set (nodes q) \<union> assigned ops \<and>
       (\<forall>v \<in> set (nodes q'). key_map q' v = latest_key (key_map q) ops v)"
proof (induction ops arbitrary: q)
  case Nil
  then show ?case by simp
next
  case (Cons op ops)
  from Cons.prems have pre: "PQ_pre op q" by simp
  from PQ_step_ok [OF Cons.prems(1) pre, of t cls]
  obtain q1 where q1: "PQ_step t cls op q = Inr q1" "pq_inv q1"
    "set (nodes q1) \<subseteq> set (nodes q) \<union> assigned [op]"
    "\<forall>v \<in> set (nodes q1). key_map q1 v = latest_key (key_map q) [op] v"
    by blast
  with Cons.prems have "PQ_ops_ok t cls ops q1" by simp
  from Cons.IH [OF q1(2) this]
  obtain q' where q': "PQ_run t cls ops q1 = Inr q'" "pq_inv q'"
    "set (nodes q') \<subseteq> set (nodes q1) \<union> assigned ops"
    "\<forall>v \<in> set (nodes q'). key_map q' v = latest_key (key_map q1) ops v"
    by blast
  have sub: "set (nodes q') \<subseteq> set (nodes q) \<union> assigned (op # ops)"
    using q'(3) q1(3) by (cases op) auto
  have "key_map q' v = latest_key (key_map q) (op # ops) v" if v: "v \<in> set (nodes q')" for v
  proof -
    have "latest_key (key_map q1) ops v = latest_key (latest_key (key_map q) [op]) ops v"
    proof (rule latest_key_cong)
      assume "v \<notin> assigned ops"
      with v q'(3) have "v \<in> set (nodes q1)" by auto
      with q1(4) show "key_map q1 v = latest_key (key_map q) [op] v" by simp
    qed
    also have "\<dots> = latest_key (key_map q) (op # ops) v" by (cases op) simp_all
    finally show ?thesis using q'(4) v by simp
  qed
  with q1(1) q' sub show ?case by simp
qed

text \<open>
  C1, as the code has it. Start from a construction with unique values and keys of the
  same length, and run any sequence of push, pop and update\_key in which every
  operation meets its precondition (\<open>PQ_ops_ok\<close>: pushed values are new, pops find the
  queue non-empty, updated values are present). Then every operation returns, and in
  the final state (so, taking prefixes, after every operation) the values are unique,
  the index map sends every value of the sequence to its slot, the key map sends it to
  the key most recently assigned to it, and the keys of both maps are exactly the
  values of the sequence.
\<close>

theorem PQ_maps_consistent:
  assumes "valid_class cls" "distinct vals" "length keys = length vals"
  shows "\<exists>q0. PQ_make t cls IsHeap keys vals = Inr q0 \<and>
    (\<forall>ops. PQ_ops_ok t cls ops q0 \<longrightarrow>
       (\<exists>q. PQ_run t cls ops q0 = Inr q \<and> distinct (nodes q) \<and>
          (\<forall>i<length (nodes q).
             index_map q (nodes q ! i) = Some i \<and>
             key_map q (nodes q ! i) = latest_key (map_of (zip vals keys)) ops (nodes q ! i)) \<and>
          dom (index_map q) = set (nodes q) \<and> dom (key_map q) = set (nodes q)))"
proof -
  from PQ_make_inv [OF assms, of t IsHeap]
  obtain q0 where q0: "PQ_make t cls IsHeap keys vals = Inr q0" "pq_inv q0"
    "key_map q0 = map_of (zip vals keys)"
    by blast
  have "\<exists>q. PQ_run t cls ops q0 = Inr q \<and> distinct (nodes q) \<and>
      (\<forall>i<length (nodes q).
         index_map q (nodes q ! i) = Some i \<and>
         key_map q (nodes q ! i) = latest_key (map_of (zip vals keys)) ops (nodes q ! i)) \<and>
      dom (index_map q) = set (nodes q) \<and> dom (key_map q) = set (nodes q)"
    if "PQ_ops_ok t cls ops q0" for ops
  proof -
    from PQ_run_ok [OF q0(2) that]
    obtain q where q: "PQ_run t cls ops q0 = Inr q" "pq_inv q"
      "\<forall>v \<in> set (nodes q). key_map q v = latest_key (key_map q0) ops v"
      by blast
    then show ?thesis
      unfolding q0(3) by (auto simp: pq_inv_def)
  qed
  with q0(1) show ?thesis by blast
qed

theorem PQ_maps_consistent_witness:
  "valid_class (KHeap 4) \<and> distinct [13, 9, 14, 8, 5, 1, 16 :: nat] \<and>
   length [5, 4, 1, 3, 6, 0, 2 :: nat] = length [13, 9, 14, 8, 5, 1, 16 :: nat] \<and>
   (\<exists>q0 q. PQ_make min_heap (KHeap 4) False [5, 4, 1, 3, 6, 0, 2 :: nat]
              [13, 9, 14, 8, 5, 1, 16 :: nat] = Inr q0 \<and>
      PQ_ops_ok min_heap (KHeap 4) [PQ_Pop, PQ_Push 7 2, PQ_Update_key 9 14] q0 \<and>
      PQ_run min_heap (KHeap 4) [PQ_Pop, PQ_Push 7 2, PQ_Update_key 9 14] q0 = Inr q \<and>
      distinct (nodes q) \<and> dom (index_map q) = set (nodes q) \<and>
      dom (key_map q) = set (nodes q))"
proof -
  have v: "valid_class (KHeap 4)" by (simp add: valid_class_def)
  have d: "distinct [13, 9, 14, 8, 5, 1, 16 :: nat]" by simp
  have l: "length [5, 4, 1, 3, 6, 0, 2 :: nat] = length [13, 9, 14, 8, 5, 1, 16 :: nat]" by simp
  have ok: "PQ_ops_ok min_heap (KHeap 4) [PQ_Pop, PQ_Push 7 2, PQ_Update_key 9 14]
      (projr (PQ_make min_heap (KHeap 4) False [5, 4, 1, 3, 6, 0, 2 :: nat]
         [13, 9, 14, 8, 5, 1, 16 :: nat]))"
    by code_simp
  from PQ_maps_consistent [OF v d l, of min_heap False]
  obtain q0 where q0: "PQ_make min_heap (KHeap 4) False [5, 4, 1, 3, 6, 0, 2 :: nat]
      [13, 9, 14, 8, 5, 1, 16 :: nat] = Inr q0"
    and all: "\<forall>ops. PQ_ops_ok min_heap (KHeap 4) ops q0 \<longrightarrow>
       (\<exists>q. PQ_run min_heap (KHeap 4) ops q0 = Inr q \<and> distinct (nodes q) \<and>
          (\<forall>i<length (nodes q).
             index_map q (nodes q ! i) = Some i \<and>
             key_map q (nodes q ! i) = latest_key (map_of (zip [13, 9, 14, 8, 5, 1, 16]
               [5, 4, 1, 3, 6, 0, 2])) ops (nodes q ! i)) \<and>
          dom (index_map q) = set (nodes q) \<and> dom (key_map q) = set (nodes q))"
    by blast
  from ok q0 have ok': "PQ_ops_ok min_heap (KHeap 4) [PQ_Pop, PQ_Push 7 2, PQ_Update_key 9 14] q0"
    by simp
  from all ok' obtain q where
    "PQ_run min_heap (KHeap 4) [PQ_Pop, PQ_Push 7 2, PQ_Update_key 9 14] q0 = Inr q"
    "distinct (nodes q)" "dom (index_map q) = set (nodes q)" "dom (key_map q) = set (nodes q)"
    by blast
  with v d l q0 ok' show ?thesis by blast
qed

text \<open>
  The claim as stated, for any sequence, fails when a value already in the queue is
  pushed again: after the push the value \<open>5\<close> is in two slots with one index entry,
  and after the following pop it is still in the sequence but has no key, although the
  key \<open>2\<close> was the last assigned to it.
\<close>

theorem PQ_maps_counterexample:
  "\<not> isl (PQ_make min_heap BinaryHeap False [1 :: nat] [5 :: nat]) \<and>
   \<not> isl (PQ_run min_heap BinaryHeap [PQ_Push 2 5, PQ_Pop]
      (projr (PQ_make min_heap BinaryHeap False [1 :: nat] [5 :: nat]))) \<and>
   nodes (projr (PQ_run min_heap BinaryHeap [PQ_Push 2 5]
      (projr (PQ_make min_heap BinaryHeap False [1 :: nat] [5 :: nat])))) = [5, 5] \<and>
   index_map (projr (PQ_run min_heap BinaryHeap [PQ_Push 2 5]
      (projr (PQ_make min_heap BinaryHeap False [1 :: nat] [5 :: nat])))) 5 = Some 1 \<and>
   nodes (projr (PQ_run min_heap BinaryHeap [PQ_Push 2 5, PQ_Pop]
      (projr (PQ_make min_heap BinaryHeap False [1 :: nat] [5 :: nat])))) = [5] \<and>
   key_map (projr (PQ_run min_heap BinaryHeap [PQ_Push 2 5, PQ_Pop]
      (projr (PQ_make min_heap BinaryHeap False [1 :: nat] [5 :: nat])))) 5 = None \<and>
   latest_key (map_of (zip [5 :: nat] [1 :: nat])) [PQ_Push 2 5, PQ_Pop] 5 = Some 2"
  by code_simp

section \<open>Pushing a value that is already in the queue\<close>






section \<open>The key map takes no part in sifting\<close>

definition seam_commutes ::
  "('a, 'm) seam \<Rightarrow> (('a, 'm) Heap_scheme \<Rightarrow> ('a, 'm) Heap_scheme) \<Rightarrow> bool" where
  "seam_commutes sw f \<longleftrightarrow>
     (\<forall>i j h. sw i j (f h) = map_sum id f (sw i j h)) \<and> (\<forall>h. nodes (f h) = nodes h)"

lemma PQ_swap_nodes_commutes: "seam_commutes PQ_swap_nodes (\<lambda>q. q\<lparr>key_map := km\<rparr>)"
  by (simp add: seam_commutes_def PQ_swap_nodes_def Heap_swap_nodes_def Let_def)

lemma heapify_up_commutes:
  assumes "seam_commutes sw f"
  shows "heapify_up sw t cls i (f h) = map_sum id f (heapify_up sw t cls i h)"
  using assms
proof (induction sw t cls i h rule: heapify_up.induct)
  case (1 sw t cls i h)
  from "1.prems" have n: "nodes (f h) = nodes h"
    and s: "sw i (parent cls i) (f h) = map_sum id f (sw i (parent cls i) h)"
    by (simp_all add: seam_commutes_def)
  show ?case
    apply (subst heapify_up.simps [of sw t cls i "f h"])
    apply (subst heapify_up.simps [of sw t cls i h])
    unfolding Let_def n s using "1.IH" "1.prems"
    by (auto simp: id_def split: sum.splits)
qed

lemma KHeap_heapify_down_loop_commutes:
  assumes "seam_commutes sw f"
  shows "KHeap_heapify_down_loop sw t K len i c (f h)
    = map_sum id f (KHeap_heapify_down_loop sw t K len i c h)"
  using assms
proof (induction sw t K len i c h rule: KHeap_heapify_down_loop.induct)
  case (1 sw t K len i c h)
  from "1.prems" have n: "nodes (f h) = nodes h" "Heap_size (f h) = Heap_size h"
    and s: "\<And>j. sw i j (f h) = map_sum id f (sw i j h)"
    by (simp_all add: seam_commutes_def Heap_size_def)
  show ?case
    apply (subst KHeap_heapify_down_loop.simps [of sw t K len i c "f h"])
    apply (subst KHeap_heapify_down_loop.simps [of sw t K len i c h])
    unfolding n s using "1.IH" "1.prems"
    by (auto simp: id_def split: sum.splits)
qed

lemma BinaryHeap_heapify_down_loop_commutes:
  assumes "seam_commutes sw f"
  shows "BinaryHeap_heapify_down_loop sw t len i (f h)
    = map_sum id f (BinaryHeap_heapify_down_loop sw t len i h)"
  using assms
proof (induction sw t len i h rule: BinaryHeap_heapify_down_loop.induct)
  case (1 sw t len i h)
  from "1.prems" have n: "nodes (f h) = nodes h" "Heap_size (f h) = Heap_size h"
    and s: "\<And>j. sw i j (f h) = map_sum id f (sw i j h)"
    by (simp_all add: seam_commutes_def Heap_size_def)
  show ?case
    apply (subst BinaryHeap_heapify_down_loop.simps [of sw t len i "f h"])
    apply (subst BinaryHeap_heapify_down_loop.simps [of sw t len i h])
    unfolding n s using "1.IH" "1.prems"
    by (auto simp: id_def split: sum.splits)
qed

lemma heapify_down_commutes:
  assumes "seam_commutes sw f"
  shows "heapify_down sw t cls i (f h) = map_sum id f (heapify_down sw t cls i h)"
proof -
  from assms have "Heap_size (f h) = Heap_size h" by (simp add: seam_commutes_def Heap_size_def)
  then show ?thesis
    using KHeap_heapify_down_loop_commutes [OF assms]
      BinaryHeap_heapify_down_loop_commutes [OF assms]
    by (cases cls) (simp_all add: BinaryHeap_heapify_down_def KHeap_heapify_down_def)
qed

text \<open>
  C4. For a value \<open>v\<close> with an index entry \<open>i\<close>, \<^verbatim>\<open>update_key\<close> on a min heap is
  \<^verbatim>\<open>heapify_up\<close> from \<open>i\<close> and on a max heap \<^verbatim>\<open>heapify_down\<close> from \<open>i\<close>, on the
  queue with the new key stored, whatever the old and the new key are. Moreover the
  sifting itself never reads a key: the result is the sifting of the queue as it was,
  with the new key stored afterwards.
\<close>

theorem PQ_update_key_direction:
  assumes "index_map q v = Some i"
  shows "PQ_update_key min_heap cls k v q
      = heapify_up PQ_swap_nodes min_heap cls i (q\<lparr>key_map := (key_map q)(v \<mapsto> k)\<rparr>) \<and>
    PQ_update_key max_heap cls k v q
      = heapify_down PQ_swap_nodes max_heap cls i (q\<lparr>key_map := (key_map q)(v \<mapsto> k)\<rparr>) \<and>
    PQ_update_key min_heap cls k v q
      = map_sum id (\<lambda>q'. q'\<lparr>key_map := (key_map q)(v \<mapsto> k)\<rparr>)
          (heapify_up PQ_swap_nodes min_heap cls i q) \<and>
    PQ_update_key max_heap cls k v q
      = map_sum id (\<lambda>q'. q'\<lparr>key_map := (key_map q)(v \<mapsto> k)\<rparr>)
          (heapify_down PQ_swap_nodes max_heap cls i q)"
proof -
  have s: "subscript (index_map q) v = i" using assms by (simp add: subscript_def)
  have "(index_map q)(v \<mapsto> i) = index_map q" using assms by (rule map_upd_triv)
  then have q1: "q\<lparr>index_map := (index_map q)(v \<mapsto> i), key_map := (key_map q)(v \<mapsto> k)\<rparr>
      = q\<lparr>key_map := (key_map q)(v \<mapsto> k)\<rparr>"
    by simp
  have up: "PQ_update_key min_heap cls k v q
      = heapify_up PQ_swap_nodes min_heap cls i (q\<lparr>key_map := (key_map q)(v \<mapsto> k)\<rparr>)"
    by (simp add: PQ_update_key_def Let_def s q1)
  have down: "PQ_update_key max_heap cls k v q
      = heapify_down PQ_swap_nodes max_heap cls i (q\<lparr>key_map := (key_map q)(v \<mapsto> k)\<rparr>)"
    by (simp add: PQ_update_key_def Let_def s q1)
  show ?thesis
    using up down
      heapify_up_commutes [OF PQ_swap_nodes_commutes [where km = "(key_map q)(v \<mapsto> k)"],
        where h = q and t = min_heap and cls = cls and i = i]
      heapify_down_commutes [OF PQ_swap_nodes_commutes [where km = "(key_map q)(v \<mapsto> k)"],
        where h = q and t = max_heap and cls = cls and i = i]
    by simp
qed

theorem PQ_update_key_direction_witness:
  "index_map (projr (PQ_make min_heap (KHeap 4) False [5, 4, 1, 3, 6, 0, 2 :: nat]
      [13, 9, 14, 8, 5, 1, 16 :: nat])) 14 = Some 2 \<and>
   PQ_update_key min_heap (KHeap 4) 0 14
       (projr (PQ_make min_heap (KHeap 4) False [5, 4, 1, 3, 6, 0, 2 :: nat]
          [13, 9, 14, 8, 5, 1, 16 :: nat]))
     = heapify_up PQ_swap_nodes min_heap (KHeap 4) 2
         ((projr (PQ_make min_heap (KHeap 4) False [5, 4, 1, 3, 6, 0, 2 :: nat]
             [13, 9, 14, 8, 5, 1, 16 :: nat]))
          \<lparr>key_map := (key_map (projr (PQ_make min_heap (KHeap 4) False
              [5, 4, 1, 3, 6, 0, 2 :: nat] [13, 9, 14, 8, 5, 1, 16 :: nat])))(14 \<mapsto> 0)\<rparr>) \<and>
   PQ_update_key max_heap (KHeap 4) 100 14
       (projr (PQ_make min_heap (KHeap 4) False [5, 4, 1, 3, 6, 0, 2 :: nat]
          [13, 9, 14, 8, 5, 1, 16 :: nat]))
     = heapify_down PQ_swap_nodes max_heap (KHeap 4) 2
         ((projr (PQ_make min_heap (KHeap 4) False [5, 4, 1, 3, 6, 0, 2 :: nat]
             [13, 9, 14, 8, 5, 1, 16 :: nat]))
          \<lparr>key_map := (key_map (projr (PQ_make min_heap (KHeap 4) False
              [5, 4, 1, 3, 6, 0, 2 :: nat] [13, 9, 14, 8, 5, 1, 16 :: nat])))(14 \<mapsto> 100)\<rparr>)"
proof -
  let ?q0 = "projr (PQ_make min_heap (KHeap 4) False [5, 4, 1, 3, 6, 0, 2 :: nat]
      [13, 9, 14, 8, 5, 1, 16 :: nat])"
  have im: "index_map ?q0 14 = Some 2" by code_simp
  from PQ_update_key_direction [OF im, of "KHeap 4" 0]
    PQ_update_key_direction [OF im, of "KHeap 4" 100] im
  show ?thesis by simp
qed

section \<open>Values that are not in the queue\<close>





end
